theory Spec2Isabelle
  imports Complex_Main "HOL-Library.Word"
begin

unbundle bit_operations_syntax

section \<open>Python values: exceptions, integer helpers, ranges\<close>

text \<open>
  The benchmark \<^verbatim>\<open>cache_benchmark.py\<close> works on Python's unbounded integers, modelled
  as \<^typ>\<open>int\<close>. Every exception the code can raise is a value of \<open>error\<close>, and a
  computation that may raise returns \<open>error + 'a\<close> with \<open>Inl\<close> for the exception.
\<close>

datatype error =
  MemoryError | OverflowError | ValueError | ZeroDivisionError | IndexError | StatisticsError

text \<open>
  The exact integer part of the base-2 logarithm: the number of halvings that keep the
  value at least 1.
\<close>

function floor_log2 :: "int \<Rightarrow> int" where
  "floor_log2 x = (if x < 2 then 0 else 1 + floor_log2 (x div 2))"
  by pat_completeness auto
termination
  by (relation "measure nat") auto

declare floor_log2.simps [simp del]

text \<open>
  \<^verbatim>\<open>int(math.log2(x))\<close>. \<^verbatim>\<open>math.log2\<close> works in double precision. Below \<open>2 ^ 47\<close>
  the argument is far enough from the next power of two for the rounded logarithm to stay
  below the next integer, and the truncation is the exact integer part. From there on the
  logarithm of a value just below a power of two may round up to the next integer (it does
  for \<open>2 ^ 49 - 1\<close>); whether it does for a given argument is the parameter \<open>up\<close>, taken
  from the platform. The result is never below the exact integer part.
  \<^verbatim>\<open>math.log2\<close> raises \<^verbatim>\<open>ValueError\<close> on a non-positive argument.
\<close>

definition trunc_log2 :: "(int \<Rightarrow> bool) \<Rightarrow> int \<Rightarrow> int" where
  "trunc_log2 up x = (if x < 2 ^ 47 \<or> \<not> up x then floor_log2 x else floor_log2 x + 1)"

definition int_log2 :: "(int \<Rightarrow> bool) \<Rightarrow> int \<Rightarrow> error + int" where
  "int_log2 up x = (if x \<le> 0 then Inl ValueError else Inr (trunc_log2 up x))"

text \<open>\<^verbatim>\<open>a << p\<close> raises \<^verbatim>\<open>ValueError\<close> on a negative shift count.\<close>

definition shl :: "int \<Rightarrow> int \<Rightarrow> error + int" where
  "shl a p = (if p < 0 then Inl ValueError else Inr (push_bit (nat p) a))"

text \<open>\<^verbatim>\<open>a // b\<close>: Python's floor division is \<open>div\<close> on \<^typ>\<open>int\<close>; a zero divisor raises.\<close>

definition floordiv :: "int \<Rightarrow> int \<Rightarrow> error + int" where
  "floordiv a b = (if b = 0 then Inl ZeroDivisionError else Inr (a div b))"

text \<open>\<^verbatim>\<open>range(start, stop, step)\<close>, as the list of the indices it yields.\<close>

function range_up :: "int \<Rightarrow> int \<Rightarrow> int \<Rightarrow> int list" where
  "range_up i stop step = (if 0 < step \<and> i < stop then i # range_up (i + step) stop step else [])"
  by pat_completeness auto
termination
  by (relation "measure (\<lambda>(i, stop, step). nat (stop - i))") auto

function range_down :: "int \<Rightarrow> int \<Rightarrow> int \<Rightarrow> int list" where
  "range_down i stop step = (if step < 0 \<and> stop < i then i # range_down (i + step) stop step else [])"
  by pat_completeness auto
termination
  by (relation "measure (\<lambda>(i, stop, step). nat (i - stop))") auto

declare range_up.simps [simp del]
declare range_down.simps [simp del]

definition py_range :: "int \<Rightarrow> int \<Rightarrow> int \<Rightarrow> error + int list" where
  "py_range start stop step =
     (if step = 0 then Inl ValueError
      else if 0 < step then Inr (range_up start stop step)
      else Inr (range_down start stop step))"

section \<open>The size sweep: \<^verbatim>\<open>generate_sizes\<close>\<close>

text \<open>The loop \<^verbatim>\<open>for p in range(pow_min, pow_max + 1): sizes.append(1 << p)\<close>.\<close>

fun append_shifts :: "int list \<Rightarrow> int list \<Rightarrow> error + int list" where
  "append_shifts [] sizes = Inr sizes"
| "append_shifts (p # ps) sizes =
     (case shl 1 p of Inl e \<Rightarrow> Inl e | Inr v \<Rightarrow> append_shifts ps (sizes @ [v]))"

definition generate_sizes :: "(int \<Rightarrow> bool) \<Rightarrow> int \<Rightarrow> int \<Rightarrow> error + int list" where
  "generate_sizes up min_kb max_bytes =
     (let sizes = [];
          min_bytes = min_kb * 1024
      in case int_log2 up (max 1024 min_bytes) of Inl e \<Rightarrow> Inl e | Inr pow_min \<Rightarrow>
         (case int_log2 up (max 1024 max_bytes) of Inl e \<Rightarrow> Inl e | Inr pow_max \<Rightarrow>
         (case py_range pow_min (pow_max + 1) 1 of Inl e \<Rightarrow> Inl e | Inr ps \<Rightarrow>
            append_shifts ps sizes)))"

text \<open>A power of two, and the largest power of two not above a bound.\<close>

definition is_pow2 :: "int \<Rightarrow> bool" where
  "is_pow2 v \<longleftrightarrow> (\<exists>k::nat. v = 2 ^ k)"

definition largest_pow2_le :: "int \<Rightarrow> int \<Rightarrow> bool" where
  "largest_pow2_le v x \<longleftrightarrow> is_pow2 v \<and> v \<le> x \<and> x < 2 * v"

section \<open>Buffers and the strided walk\<close>

datatype kind = ArrayQ | PyList

text \<open>
  \<^verbatim>\<open>data[i]\<close> on an \<^verbatim>\<open>array('Q')\<close> of unsigned 64-bit values and on a list of
  integers: a negative index counts from the end, an index out of range raises.
\<close>

definition array_get :: "64 word list \<Rightarrow> int \<Rightarrow> error + int" where
  "array_get data i =
     (let n = int (length data); j = (if i < 0 then n + i else i)
      in if 0 \<le> j \<and> j < n then Inr (uint (data ! nat j)) else Inl IndexError)"

definition list_get :: "int list \<Rightarrow> int \<Rightarrow> error + int" where
  "list_get data i =
     (let n = int (length data); j = (if i < 0 then n + i else i)
      in if 0 \<le> j \<and> j < n then Inr (data ! nat j) else Inl IndexError)"

text \<open>
  One walk \<^verbatim>\<open>for i in range(0, num_elements, stride_elems): s ^= data[i]\<close> over the
  indices of the range. The state is the accumulator \<open>s\<close> together with a count of the
  reads performed so far; the count is an observer added to the model, the source keeps
  no such counter.
\<close>

fun walk :: "(int \<Rightarrow> error + int) \<Rightarrow> int list \<Rightarrow> int \<times> nat \<Rightarrow> error + int \<times> nat" where
  "walk rd [] acc = Inr acc"
| "walk rd (i # idxs) (s, k) =
     (case rd i of Inl e \<Rightarrow> Inl e | Inr v \<Rightarrow> walk rd idxs (s XOR v, Suc k))"

text \<open>The timed region: \<^verbatim>\<open>for _ in range(loops): <one walk>\<close>.\<close>

fun timed_loops ::
  "(int \<Rightarrow> error + int) \<Rightarrow> int \<Rightarrow> int \<Rightarrow> nat \<Rightarrow> int \<times> nat \<Rightarrow> error + int \<times> nat" where
  "timed_loops rd num_elements stride_elems 0 acc = Inr acc"
| "timed_loops rd num_elements stride_elems (Suc l) acc =
     (case py_range 0 num_elements stride_elems of Inl e \<Rightarrow> Inl e
      | Inr idxs \<Rightarrow>
          (case walk rd idxs acc of Inl e \<Rightarrow> Inl e
           | Inr acc' \<Rightarrow> timed_loops rd num_elements stride_elems l acc'))"

section \<open>The measurers\<close>

text \<open>
  The environment supplies what the code takes from outside: the successive readings of
  \<^verbatim>\<open>time.perf_counter_ns()\<close> (\<open>clock env t\<close> is the reading number \<open>t\<close>) and whether
  building a buffer of a kind with a number of elements raises at that moment
  (\<open>alloc_fails\<close>). What is raised depends on the count: CPython raises
  \<^verbatim>\<open>OverflowError\<close> when the count does not fit a machine index (\<open>2 ^ 63\<close> or more, where
  the construction always fails) and \<^verbatim>\<open>MemoryError\<close> otherwise.
\<close>

record env =
  clock :: "nat \<Rightarrow> int"
  alloc_fails :: "kind \<Rightarrow> nat \<Rightarrow> int \<Rightarrow> bool"

definition alloc_error :: "int \<Rightarrow> error" where
  "alloc_error num_elements = (if 2 ^ 63 \<le> num_elements then OverflowError else MemoryError)"

text \<open>
  What one call of a measurer computes. \<open>ns_per_access\<close> is the value the Python
  function returns (the true division is taken exactly, as a rational); the other fields
  expose its local variables: the two derived counts, the final accumulator, whether the
  guard \<^verbatim>\<open>if s == -1: print(...)\<close> printed, and the number of reads done by the
  warm-up and by the timed region.
\<close>

record measurement =
  accesses_per_loop :: int
  loops :: int
  total_accesses :: int
  warm_reads :: nat
  timed_reads :: nat
  s_final :: int
  printed :: bool
  ns_per_access :: rat

definition truediv :: "int \<Rightarrow> int \<Rightarrow> error + rat" where
  "truediv a b = (if b = 0 then Inl ZeroDivisionError else Inr (of_int a / of_int b))"

definition measure_stride_reads_array ::
  "env \<Rightarrow> int \<Rightarrow> int \<Rightarrow> int \<Rightarrow> bool \<Rightarrow> nat \<Rightarrow> (error + measurement) \<times> nat" where
  "measure_stride_reads_array env num_elements stride_elems min_acc warm t =
     (if alloc_fails env ArrayQ t num_elements then (Inl (alloc_error num_elements), t)
      else
        let data = replicate (nat num_elements) (0 :: 64 word) in
        case (if warm
              then (case py_range 0 num_elements stride_elems of Inl e \<Rightarrow> Inl e
                    | Inr idxs \<Rightarrow> walk (array_get data) idxs (0, 0))
              else Inr (0, 0)) of
          Inl e \<Rightarrow> (Inl e, t)
        | Inr (s_warm, wr) \<Rightarrow>
        (case floordiv (num_elements + stride_elems - 1) stride_elems of
          Inl e \<Rightarrow> (Inl e, t)
        | Inr q \<Rightarrow>
        let apl = max 1 q in
        (case floordiv (min_acc + apl - 1) apl of
          Inl e \<Rightarrow> (Inl e, t)
        | Inr q' \<Rightarrow>
        let lps = max 1 q';
            start = clock env t in
        (case timed_loops (array_get data) num_elements stride_elems (nat lps) (0, 0) of
          Inl e \<Rightarrow> (Inl e, Suc t)
        | Inr (s, reads) \<Rightarrow>
        let stop = clock env (Suc t);
            total = lps * apl in
        (case truediv (stop - start) total of
          Inl e \<Rightarrow> (Inl e, Suc (Suc t))
        | Inr ns \<Rightarrow>
            (Inr \<lparr>accesses_per_loop = apl, loops = lps, total_accesses = total,
                  warm_reads = wr, timed_reads = reads, s_final = s,
                  printed = (s = - 1), ns_per_access = ns\<rparr>, Suc (Suc t)))))))"

definition measure_stride_reads_list ::
  "env \<Rightarrow> int \<Rightarrow> int \<Rightarrow> int \<Rightarrow> bool \<Rightarrow> nat \<Rightarrow> (error + measurement) \<times> nat" where
  "measure_stride_reads_list env num_elements stride_elems min_acc warm t =
     (if alloc_fails env PyList t num_elements then (Inl (alloc_error num_elements), t)
      else
        let data = range_up 0 num_elements 1 in
        case (if warm
              then (case py_range 0 num_elements stride_elems of Inl e \<Rightarrow> Inl e
                    | Inr idxs \<Rightarrow> walk (list_get data) idxs (0, 0))
              else Inr (0, 0)) of
          Inl e \<Rightarrow> (Inl e, t)
        | Inr (s_warm, wr) \<Rightarrow>
        (case floordiv (num_elements + stride_elems - 1) stride_elems of
          Inl e \<Rightarrow> (Inl e, t)
        | Inr q \<Rightarrow>
        let apl = max 1 q in
        (case floordiv (min_acc + apl - 1) apl of
          Inl e \<Rightarrow> (Inl e, t)
        | Inr q' \<Rightarrow>
        let lps = max 1 q';
            start = clock env t in
        (case timed_loops (list_get data) num_elements stride_elems (nat lps) (0, 0) of
          Inl e \<Rightarrow> (Inl e, Suc t)
        | Inr (s, reads) \<Rightarrow>
        let stop = clock env (Suc t);
            total = lps * apl in
        (case truediv (stop - start) total of
          Inl e \<Rightarrow> (Inl e, Suc (Suc t))
        | Inr ns \<Rightarrow>
            (Inr \<lparr>accesses_per_loop = apl, loops = lps, total_accesses = total,
                  warm_reads = wr, timed_reads = reads, s_final = s,
                  printed = (s = - 1), ns_per_access = ns\<rparr>, Suc (Suc t)))))))"

section \<open>Aggregation and the sweep of \<^verbatim>\<open>main\<close>\<close>

text \<open>
  \<^verbatim>\<open>statistics.median\<close> of the standard library: sort, then the middle element, or
  \<^verbatim>\<open>(data[i - 1] + data[i]) / 2\<close> for an even count; empty data raises. The samples are
  floats, and the sum and the halving are rounded to double precision: \<open>avg x y\<close> is what
  \<^verbatim>\<open>(x + y) / 2\<close> gives for two samples, a parameter taken from the platform.
\<close>

definition py_median :: "(rat \<Rightarrow> rat \<Rightarrow> rat) \<Rightarrow> rat list \<Rightarrow> error + rat" where
  "py_median avg xs =
     (let data = sort xs; n = length data
      in if n = 0 then Inl StatisticsError
         else if n mod 2 = 1 then Inr (data ! (n div 2))
         else (let i = n div 2 in Inr (avg (data ! (i - 1)) (data ! i))))"

text \<open>The rounded mean of two samples lies between them.\<close>

definition mean_between :: "(rat \<Rightarrow> rat \<Rightarrow> rat) \<Rightarrow> bool" where
  "mean_between avg \<longleftrightarrow> (\<forall>x y. x \<le> y \<longrightarrow> x \<le> avg x y \<and> avg x y \<le> y)"

text \<open>
  A median in the statistical sense: at least half of the samples are not above it and at
  least half are not below it.
\<close>

definition is_median :: "rat \<Rightarrow> rat list \<Rightarrow> bool" where
  "is_median m xs \<longleftrightarrow>
     length xs \<le> 2 * length (filter (\<lambda>x. x \<le> m) xs) \<and>
     length xs \<le> 2 * length (filter (\<lambda>x. m \<le> x) xs)"

text \<open>The parsed command line; \<^verbatim>\<open>--csv\<close> only selects the formatting and is left out.\<close>

record args =
  min_kb :: int
  max_mb :: int
  max_gb :: "rat option"
  stride_bytes :: int
  min_accesses :: int
  repeats :: int
  use_list :: bool
  use_array :: bool
  warmup :: bool

text \<open>A value of \<^verbatim>\<open>ns_array\<close> or \<^verbatim>\<open>ns_list\<close>: a number or \<^verbatim>\<open>float("nan")\<close>.\<close>

datatype py_float = Fin rat | NaN

text \<open>One output row, before formatting; a column of a disabled kind is \<open>None\<close>.\<close>

record row =
  row_size_bytes :: int
  row_ns_array :: "py_float option"
  row_ns_list :: "py_float option"

text \<open>
  The record of one call of a measurer made by \<^verbatim>\<open>main\<close>: its arguments and what it
  returned or raised. The list of calls is an observer of the model.
\<close>

record call =
  call_kind :: kind
  call_num_elements :: int
  call_stride_elems :: int
  call_min_accesses :: int
  call_warmup :: bool
  call_result :: "error + rat"

record world =
  tick :: nat
  calls :: "call list"
  rows :: "row list"

definition invoke ::
  "env \<Rightarrow> kind \<Rightarrow> int \<Rightarrow> int \<Rightarrow> int \<Rightarrow> bool \<Rightarrow> world \<Rightarrow> (error + rat) \<times> world" where
  "invoke env k num_elements stride_elems min_acc warm w =
     (case (case k of
              ArrayQ \<Rightarrow> measure_stride_reads_array env num_elements stride_elems min_acc warm (tick w)
            | PyList \<Rightarrow> measure_stride_reads_list env num_elements stride_elems min_acc warm (tick w)) of
        (res, t') \<Rightarrow>
          (let ret = (case res of Inl e \<Rightarrow> Inl e | Inr m \<Rightarrow> Inr (ns_per_access m))
           in (ret, w\<lparr>tick := t',
                      calls := calls w @
                        [\<lparr>call_kind = k, call_num_elements = num_elements,
                          call_stride_elems = stride_elems, call_min_accesses = min_acc,
                          call_warmup = warm, call_result = ret\<rparr>]\<rparr>)))"

text \<open>\<^verbatim>\<open>for _ in range(args.repeats): samples.append(measure(...))\<close>; an exception ends the loop.\<close>

fun collect_samples ::
  "(world \<Rightarrow> (error + rat) \<times> world) \<Rightarrow> nat \<Rightarrow> rat list \<Rightarrow> world \<Rightarrow> (error + rat list) \<times> world" where
  "collect_samples f 0 samples w = (Inr samples, w)"
| "collect_samples f (Suc n) samples w =
     (case f w of
        (Inl e, w') \<Rightarrow> (Inl e, w')
      | (Inr x, w') \<Rightarrow> collect_samples f n (samples @ [x]) w')"

text \<open>
  The \<^verbatim>\<open>try: ... except MemoryError: ns = float("nan")\<close> block of one buffer kind:
  only \<^verbatim>\<open>MemoryError\<close> is caught, any other exception propagates.
\<close>

definition measure_kind ::
  "(rat \<Rightarrow> rat \<Rightarrow> rat) \<Rightarrow> env \<Rightarrow> kind \<Rightarrow> int \<Rightarrow> int \<Rightarrow> int \<Rightarrow> bool \<Rightarrow> int \<Rightarrow> world \<Rightarrow>
     (error + py_float) \<times> world" where
  "measure_kind avg env k num_elements stride_elems min_acc warm reps w =
     (case collect_samples (invoke env k num_elements stride_elems min_acc warm) (nat reps) [] w of
        (Inl e, w') \<Rightarrow> (if e = MemoryError then (Inr NaN, w') else (Inl e, w'))
      | (Inr samples, w') \<Rightarrow>
          (case py_median avg samples of
             Inl e \<Rightarrow> (if e = MemoryError then (Inr NaN, w') else (Inl e, w'))
           | Inr m \<Rightarrow> (Inr (Fin m), w')))"

text \<open>The test \<^verbatim>\<open>if num_elements_array < 8: continue\<close> of the loop body.\<close>

definition skipped :: "int \<Rightarrow> bool" where
  "skipped size_bytes \<longleftrightarrow> max 1 (size_bytes div 8) < 8"

text \<open>The body of \<^verbatim>\<open>for size_bytes in sizes\<close>; printing a row appends it to \<open>rows\<close>.\<close>

definition process_size ::
  "(rat \<Rightarrow> rat \<Rightarrow> rat) \<Rightarrow> env \<Rightarrow> args \<Rightarrow> int \<Rightarrow> int \<Rightarrow> world \<Rightarrow> (error + unit) \<times> world" where
  "process_size avg env a stride_elems size_bytes w =
     (let element_size = 8;
          num_elements_array = max 1 (size_bytes div element_size);
          num_elements_list = num_elements_array
      in if num_elements_array < 8 then (Inr (), w)
         else
           case (if use_array a
                 then (case measure_kind avg env ArrayQ num_elements_array stride_elems
                              (min_accesses a) (warmup a) (repeats a) w of
                         (Inl e, w') \<Rightarrow> (Inl e, w')
                       | (Inr v, w') \<Rightarrow> (Inr (Some v), w'))
                 else (Inr None, w)) of
             (Inl e, w1) \<Rightarrow> (Inl e, w1)
           | (Inr ns_array, w1) \<Rightarrow>
           (case (if use_list a
                  then (case measure_kind avg env PyList num_elements_list stride_elems
                               (min_accesses a div 10) (warmup a) (repeats a) w1 of
                          (Inl e, w') \<Rightarrow> (Inl e, w')
                        | (Inr v, w') \<Rightarrow> (Inr (Some v), w'))
                  else (Inr None, w1)) of
             (Inl e, w2) \<Rightarrow> (Inl e, w2)
           | (Inr ns_list, w2) \<Rightarrow>
               (Inr (), w2\<lparr>rows := rows w2 @
                         [\<lparr>row_size_bytes = size_bytes, row_ns_array = ns_array,
                           row_ns_list = ns_list\<rparr>]\<rparr>)))"

fun sweep ::
  "(rat \<Rightarrow> rat \<Rightarrow> rat) \<Rightarrow> env \<Rightarrow> args \<Rightarrow> int \<Rightarrow> int list \<Rightarrow> world \<Rightarrow> (error + unit) \<times> world" where
  "sweep avg env a stride_elems [] w = (Inr (), w)"
| "sweep avg env a stride_elems (size_bytes # sizes) w =
     (case process_size avg env a stride_elems size_bytes w of
        (Inl e, w') \<Rightarrow> (Inl e, w')
      | (Inr u, w') \<Rightarrow> sweep avg env a stride_elems sizes w')"

text \<open>
  \<^verbatim>\<open>int(x)\<close> of a float truncates towards zero. The product with \<^verbatim>\<open>--max-gb\<close> is
  taken exactly; an infinite or not-a-number \<^verbatim>\<open>--max-gb\<close>, for which \<^verbatim>\<open>int\<close> raises
  before any size is generated, is left out.
\<close>

definition trunc :: "rat \<Rightarrow> int" where
  "trunc x = (if 0 \<le> x then \<lfloor>x\<rfloor> else \<lceil>x\<rceil>)"

definition main ::
  "(int \<Rightarrow> bool) \<Rightarrow> (rat \<Rightarrow> rat \<Rightarrow> rat) \<Rightarrow> env \<Rightarrow> args \<Rightarrow> world \<Rightarrow> (error + int) \<times> world" where
  "main up avg env a0 w =
     (let a = (if \<not> use_list a0 \<and> \<not> use_array a0
               then a0\<lparr>use_list := True, use_array := True\<rparr> else a0);
          element_size = 8;
          stride_elems = max 1 (stride_bytes a div element_size);
          max_bytes = (case max_gb a of
                         Some g \<Rightarrow> trunc (g * 1024 * 1024 * 1024)
                       | None \<Rightarrow> max_mb a * 1024 * 1024)
      in case generate_sizes up (min_kb a) max_bytes of
           Inl e \<Rightarrow> (Inl e, w)
         | Inr sizes \<Rightarrow>
             (case sweep avg env a stride_elems sizes w of
                (Inl e, w') \<Rightarrow> (Inl e, w')
              | (Inr u, w') \<Rightarrow> (Inr 0, w')))"

text \<open>
  The loop count of a measurement is the smallest positive number of walks whose reads
  reach the floor \<open>m\<close> of accesses.
\<close>

definition loop_count_ok :: "int \<Rightarrow> measurement \<Rightarrow> bool" where
  "loop_count_ok m r \<longleftrightarrow>
     1 \<le> loops r \<and> m \<le> loops r * accesses_per_loop r \<and>
     (\<forall>k. 1 \<le> k \<and> m \<le> k * accesses_per_loop r \<longrightarrow> loops r \<le> k)"

text \<open>
  Observers of a run: the calls made and the rows printed between two states of the world,
  and what it means for a value to be the aggregate of the calls of one buffer kind at one
  size: not-a-number when a call raised \<^verbatim>\<open>MemoryError\<close>, else the median of the
  \<open>reps\<close> samples the calls returned.
\<close>

definition new_calls :: "world \<Rightarrow> world \<Rightarrow> call list" where
  "new_calls w w' = drop (length (calls w)) (calls w')"

definition new_rows :: "world \<Rightarrow> world \<Rightarrow> row list" where
  "new_rows w w' = drop (length (rows w)) (rows w')"

definition aggregated ::
  "(rat \<Rightarrow> rat \<Rightarrow> rat) \<Rightarrow> int \<Rightarrow> call list \<Rightarrow> py_float \<Rightarrow> bool" where
  "aggregated avg reps cs v \<longleftrightarrow>
     (if \<exists>c\<in>set cs. call_result c = Inl MemoryError then v = NaN
      else \<exists>samples med. map call_result cs = map Inr samples \<and> length samples = nat reps \<and>
             py_median avg samples = Inr med \<and> v = Fin med)"

section \<open>Facts about the helpers\<close>

lemma floor_log2_nonneg: "0 \<le> floor_log2 x"
  by (induction x rule: floor_log2.induct) (simp add: floor_log2.simps)

lemma floor_log2_bounds:
  "1 \<le> x \<Longrightarrow> 2 ^ nat (floor_log2 x) \<le> x \<and> x < 2 * 2 ^ nat (floor_log2 x)"
proof (induction x rule: floor_log2.induct)
  case (1 x)
  show ?case
  proof (cases "x < 2")
    case True
    with "1.prems" have "x = 1" by simp
    then show ?thesis by (simp add: floor_log2.simps)
  next
    case False
    then have half: "1 \<le> x div 2" by simp
    from "1.IH" [OF False half]
    have ih: "2 ^ nat (floor_log2 (x div 2)) \<le> x div 2"
      "x div 2 < 2 * 2 ^ nat (floor_log2 (x div 2))" by simp_all
    have unfold: "nat (floor_log2 x) = Suc (nat (floor_log2 (x div 2)))"
      using False floor_log2_nonneg [of "x div 2"]
      by (subst floor_log2.simps) (simp add: nat_add_distrib)
    from ih show ?thesis unfolding unfold by simp linarith
  qed
qed

lemma floor_log2_unique:
  assumes "2 ^ k \<le> x" "x < 2 * 2 ^ k"
  shows "floor_log2 x = int k"
proof -
  from assms have pos: "1 \<le> x"
    by (meson one_le_power order_trans one_le_numeral)
  let ?m = "nat (floor_log2 x)"
  from floor_log2_bounds [OF pos]
  have m: "2 ^ ?m \<le> x" "x < 2 * 2 ^ ?m" by simp_all
  have "(2::int) ^ k < 2 ^ Suc ?m" using assms(1) m(2) by simp
  then have a: "k < Suc ?m" by (simp only: power_strict_increasing_iff [of "2::int"] one_less_numeral_iff semiring_norm)
  have "(2::int) ^ ?m < 2 ^ Suc k" using assms(2) m(1) by simp
  then have b: "?m < Suc k" by (simp only: power_strict_increasing_iff [of "2::int"] one_less_numeral_iff semiring_norm)
  from a b have "?m = k" by simp
  then show ?thesis using floor_log2_nonneg [of x] by simp
qed

lemma floor_log2_mono: "x \<le> y \<Longrightarrow> floor_log2 x \<le> floor_log2 y"
proof (cases "1 \<le> x")
  case False
  then have "floor_log2 x = 0" by (simp add: floor_log2.simps)
  then show ?thesis by (simp add: floor_log2_nonneg)
next
  case True
  assume le: "x \<le> y"
  with True have y: "1 \<le> y" by simp
  from floor_log2_bounds [OF True] floor_log2_bounds [OF y] le
  have "(2::int) ^ nat (floor_log2 x) < 2 ^ Suc (nat (floor_log2 y))" by simp
  then have "nat (floor_log2 x) < Suc (nat (floor_log2 y))"
    by (simp only: power_strict_increasing_iff [of "2::int"] one_less_numeral_iff semiring_norm)
  then show ?thesis using floor_log2_nonneg [of x] floor_log2_nonneg [of y] by simp
qed

lemma floor_log2_is_floor_log:
  assumes "1 \<le> x"
  shows "floor_log2 x = \<lfloor>log 2 (real_of_int x)\<rfloor>"
proof -
  define k where "k = nat (floor_log2 x)"
  have fk: "floor_log2 x = int k"
    using floor_log2_nonneg [of x] by (simp add: k_def)
  from floor_log2_bounds [OF assms]
  have b: "2 ^ k \<le> x" "x < 2 * 2 ^ k" by (simp_all add: k_def)
  have "real_of_int ((2::int) ^ k) \<le> real_of_int x" using b(1) by (simp only: of_int_le_iff)
  then have lo: "(2::real) powr real_of_int (int k) \<le> real_of_int x"
    by (simp add: powr_realpow)
  have "real_of_int x < real_of_int (2 * 2 ^ k)" using b(2) by (simp only: of_int_less_iff)
  then have hi: "real_of_int x < (2::real) powr real_of_int (int k + 1)"
    by (simp add: powr_add powr_realpow)
  have pos: "0 < real_of_int x" using assms by simp
  have "\<lfloor>log 2 (real_of_int x)\<rfloor> = int k"
    using floor_log_eq_powr_iff [OF pos, of 2 "int k"] lo hi by simp
  then show ?thesis using fk by simp
qed

lemma range_up_one: "range_up i stop 1 = [i..stop - 1]"
proof (induction i stop "1::int" rule: range_up.induct)
  case (1 i stop)
  show ?case
  proof (cases "i < stop")
    case True
    with "1" have "range_up (i + 1) stop 1 = [i + 1..stop - 1]" by simp
    with True show ?thesis
      by (subst range_up.simps, subst upto_rec1) simp_all
  next
    case False
    then show ?thesis by (subst range_up.simps) simp
  qed
qed

lemma append_shifts_map:
  "\<forall>p\<in>set ps. 0 \<le> p \<Longrightarrow> append_shifts ps sizes = Inr (sizes @ map (\<lambda>p. 2 ^ nat p) ps)"
  by (induction ps arbitrary: sizes) (simp_all add: shl_def)

lemma trunc_log2_ge: "floor_log2 x \<le> trunc_log2 up x"
  by (simp add: trunc_log2_def)

lemma trunc_log2_exact: "x < 2 ^ 47 \<Longrightarrow> trunc_log2 up x = floor_log2 x"
  by (simp add: trunc_log2_def)

lemma generate_sizes_eq:
  "generate_sizes up kb mx =
     Inr (map (\<lambda>p. 2 ^ nat p)
            [trunc_log2 up (max 1024 (kb * 1024))..trunc_log2 up (max 1024 mx)])"
proof -
  have "0 \<le> trunc_log2 up (max 1024 (kb * 1024))"
    using floor_log2_nonneg [of "max 1024 (kb * 1024)"]
      trunc_log2_ge [of "max 1024 (kb * 1024)" up] by linarith
  then have "\<forall>p\<in>set [trunc_log2 up (max 1024 (kb * 1024))..trunc_log2 up (max 1024 mx)]. 0 \<le> p"
    by auto
  then show ?thesis
    by (simp add: generate_sizes_def int_log2_def py_range_def range_up_one append_shifts_map)
qed

lemma floor_log2_ge_10: "1024 \<le> x \<Longrightarrow> 10 \<le> floor_log2 x"
proof -
  assume "1024 \<le> x"
  then have "floor_log2 1024 \<le> floor_log2 x" by (rule floor_log2_mono)
  moreover have "floor_log2 1024 = 10"
    using floor_log2_unique [of 10 1024] by simp
  ultimately show ?thesis by simp
qed

lemma is_pow2_power: "is_pow2 (2 ^ k)"
  unfolding is_pow2_def by blast

lemma floor_log2_less_iff:
  assumes "1 \<le> x"
  shows "x < 2 * 2 ^ k \<longleftrightarrow> floor_log2 x \<le> int k"
proof
  assume "x < 2 * 2 ^ k"
  with floor_log2_bounds [OF assms] have "(2::int) ^ nat (floor_log2 x) < 2 ^ Suc k" by simp
  then have "nat (floor_log2 x) < Suc k"
    by (simp only: power_strict_increasing_iff [of "2::int"] one_less_numeral_iff semiring_norm)
  then show "floor_log2 x \<le> int k" by simp
next
  assume "floor_log2 x \<le> int k"
  then have "nat (floor_log2 x) \<le> k" by simp
  then have "(2::int) ^ nat (floor_log2 x) \<le> 2 ^ k" by (simp only: power_increasing_iff [of "2::int"] one_less_numeral_iff semiring_norm)
  with floor_log2_bounds [OF assms] show "x < 2 * 2 ^ k" by linarith
qed

lemma floor_log2_ge_iff:
  assumes "1 \<le> x"
  shows "2 ^ k \<le> x \<longleftrightarrow> int k \<le> floor_log2 x"
proof
  assume "2 ^ k \<le> x"
  with floor_log2_bounds [OF assms] have "(2::int) ^ k < 2 ^ Suc (nat (floor_log2 x))" by simp
  then have "k < Suc (nat (floor_log2 x))"
    by (simp only: power_strict_increasing_iff [of "2::int"] one_less_numeral_iff semiring_norm)
  then show "int k \<le> floor_log2 x" using floor_log2_nonneg [of x] by linarith
next
  assume "int k \<le> floor_log2 x"
  then have "k \<le> nat (floor_log2 x)" by simp
  then have "(2::int) ^ k \<le> 2 ^ nat (floor_log2 x)" by (simp only: power_increasing_iff [of "2::int"] one_less_numeral_iff semiring_norm)
  with floor_log2_bounds [OF assms] show "2 ^ k \<le> x" by linarith
qed

lemma set_pow2_upto:
  assumes "1 \<le> lo" "1 \<le> hi"
  shows "set (map (\<lambda>p. 2 ^ nat p) [floor_log2 lo..floor_log2 hi]) =
         {v::int. is_pow2 v \<and> lo < 2 * v \<and> v \<le> hi}" (is "?L = ?R")
proof (rule set_eqI)
  fix v :: int
  show "v \<in> ?L \<longleftrightarrow> v \<in> ?R"
  proof
    assume "v \<in> ?L"
    then obtain p where p: "floor_log2 lo \<le> p" "p \<le> floor_log2 hi" "v = 2 ^ nat p" by auto
    from p(1) floor_log2_nonneg [of lo] have p0: "0 \<le> p" by simp
    have "lo < 2 * 2 ^ nat p" using p(1) p0 by (simp add: floor_log2_less_iff [OF assms(1)])
    moreover have "2 ^ nat p \<le> hi" using p(2) p0 by (simp add: floor_log2_ge_iff [OF assms(2)])
    ultimately show "v \<in> ?R" using p(3) by (simp add: is_pow2_power)
  next
    assume "v \<in> ?R"
    then obtain k :: nat where k: "v = 2 ^ k" "lo < 2 * 2 ^ k" "2 ^ k \<le> hi"
      by (auto simp: is_pow2_def)
    have "floor_log2 lo \<le> int k" using k(2) by (simp add: floor_log2_less_iff [OF assms(1)])
    moreover have "int k \<le> floor_log2 hi" using k(3) by (simp add: floor_log2_ge_iff [OF assms(2)])
    ultimately have "int k \<in> set [floor_log2 lo..floor_log2 hi]" by simp
    then have "2 ^ nat (int k) \<in> ?L" by (simp only: set_map image_eqI)
    then show "v \<in> ?L" using k(1) by simp
  qed
qed

lemma sorted_pow2_upto:
  "0 \<le> a \<Longrightarrow> sorted_wrt (<) (map (\<lambda>p. (2::int) ^ nat p) [a..b])"
proof -
  assume a: "0 \<le> a"
  have "sorted_wrt (\<lambda>x y. (2::int) ^ nat x < 2 ^ nat y) [a..b]"
  proof (rule sorted_wrt_mono_rel [where P = "(<)"])
    fix x y assume "x \<in> set [a..b]" "y \<in> set [a..b]" "x < y"
    with a have "nat x < nat y" by simp
    then show "(2::int) ^ nat x < 2 ^ nat y" by simp
  next
    show "sorted_wrt (<) [a..b]" by (simp add: strict_sorted_iff)
  qed
  then show ?thesis by (simp add: sorted_wrt_map)
qed

lemma largest_pow2_le_floor: "1 \<le> x \<Longrightarrow> largest_pow2_le (2 ^ nat (floor_log2 x)) x"
  using floor_log2_bounds [of x] by (simp add: largest_pow2_le_def is_pow2_power)

lemma largest_pow2_le_unique:
  assumes "largest_pow2_le v x"
  shows "v = 2 ^ nat (floor_log2 x)"
proof -
  from assms obtain k :: nat where k: "v = 2 ^ k" "2 ^ k \<le> x" "x < 2 * 2 ^ k"
    by (auto simp: largest_pow2_le_def is_pow2_def)
  from floor_log2_unique [OF k(2) k(3)] k(1) show ?thesis by simp
qed

lemma largest_pow2_le_numeral: "2 ^ k \<le> x \<Longrightarrow> x < 2 * 2 ^ k \<Longrightarrow> largest_pow2_le (2 ^ k) x"
  by (simp add: largest_pow2_le_def is_pow2_power)

section \<open>Claims about the size sweep\<close>

text \<open>
  What \<open>generate_sizes\<close> returns while both bounds are in the range where the logarithm is
  exact: the strictly increasing list of exactly the powers of two \<open>v\<close> with
  \<open>max 1024 min_bytes < 2 * v\<close> and \<open>v \<le> max 1024 max_bytes\<close> (\<open>min_bytes = kb * 1024\<close>). Both
  bounds are rounded down to a power of two.
\<close>

lemma generate_sizes_in_exact_range:
  assumes "max 1024 (kb * 1024) < 2 ^ 47" "max 1024 mx < 2 ^ 47"
  shows "\<exists>sizes. generate_sizes up kb mx = Inr sizes \<and>
     sorted_wrt (<) sizes \<and>
     set sizes = {v. is_pow2 v \<and> max 1024 (kb * 1024) < 2 * v \<and> v \<le> max 1024 mx} \<and>
     (sizes \<noteq> [] \<longrightarrow>
        largest_pow2_le (hd sizes) (max 1024 (kb * 1024)) \<and>
        largest_pow2_le (last sizes) (max 1024 mx))"
proof -
  define lo where "lo = max 1024 (kb * 1024)"
  define hi where "hi = max 1024 mx"
  define sizes where "sizes = map (\<lambda>p. (2::int) ^ nat p) [floor_log2 lo..floor_log2 hi]"
  have lo1: "1 \<le> lo" and hi1: "1 \<le> hi" by (simp_all add: lo_def hi_def)
  have gen: "generate_sizes up kb mx = Inr sizes"
    using assms by (simp add: generate_sizes_eq trunc_log2_exact sizes_def lo_def hi_def)
  have srt: "sorted_wrt (<) sizes"
    unfolding sizes_def by (rule sorted_pow2_upto) (rule floor_log2_nonneg)
  have mem: "set sizes = {v. is_pow2 v \<and> lo < 2 * v \<and> v \<le> hi}"
    unfolding sizes_def by (rule set_pow2_upto [OF lo1 hi1])
  have ends: "largest_pow2_le (hd sizes) lo \<and> largest_pow2_le (last sizes) hi" if "sizes \<noteq> []"
  proof -
    from that have le: "floor_log2 lo \<le> floor_log2 hi" by (simp add: sizes_def)
    then have "hd sizes = 2 ^ nat (floor_log2 lo)"
      by (simp add: sizes_def upto_rec1 [of "floor_log2 lo"])
    moreover from le have "last sizes = 2 ^ nat (floor_log2 hi)"
      by (simp add: sizes_def upto_rec2 [of "floor_log2 lo"])
    ultimately show ?thesis
      using largest_pow2_le_floor [OF lo1] largest_pow2_le_floor [OF hi1] by simp
  qed
  from gen srt mem ends show ?thesis unfolding lo_def hi_def by blast
qed

text \<open>
  C1. The sweep is to run over the powers of two from the smallest one at or above
  \<open>max 1024 min_bytes\<close> to the largest one at or below \<open>max 1024 max_bytes\<close>. The code
  rounds the lower bound down instead of up: with \<^verbatim>\<open>min_kb = 3\<close> (\<open>min_bytes = 3072\<close>)
  and \<^verbatim>\<open>max_bytes = 4096\<close> it returns 2048 and 4096, and 2048 is below the bound, which
  the help text of \<^verbatim>\<open>--min-kb\<close> calls the minimum working set size. The result does not
  depend on the rounding of the logarithm.
\<close>

theorem generate_sizes_starts_below_minimum:
  "generate_sizes up 3 4096 = Inr [2048, 4096] \<and> \<not> max 1024 (3 * 1024) \<le> (2048 :: int)"
  by (simp add: generate_sizes_def int_log2_def trunc_log2_def py_range_def floor_log2.simps
      range_up.simps shl_def)

text \<open>
  C2. The sweep is to be empty whenever the lower bound exceeds the upper bound after the
  floor of 1024. With \<^verbatim>\<open>min_kb = 3\<close> and \<^verbatim>\<open>max_bytes = 2048\<close> the bounds are 3072 and
  2048, and the code, rounding the lower bound down as in C1, returns the one size 2048.
\<close>

theorem generate_sizes_inverted_bounds_not_empty:
  "max 1024 (2048 :: int) < max 1024 (3 * 1024) \<and> generate_sizes up 3 2048 = Inr [2048]"
  by (simp add: generate_sizes_def int_log2_def trunc_log2_def py_range_def floor_log2.simps
      range_up.simps shl_def)

text \<open>
  C10. Every size that \<open>generate_sizes\<close> returns is a power of two, at least 1024 and a
  multiple of 8; its element count \<open>size div 8\<close> is at least 128, and the test of the
  sweep loop that skips a size with fewer than 8 elements is false for it. This holds
  whatever the rounding of the logarithm does.
\<close>

theorem generated_size_never_skipped:
  assumes "generate_sizes up kb mx = Inr sizes" "v \<in> set sizes"
  shows "is_pow2 v \<and> 1024 \<le> v \<and> v mod 8 = 0 \<and> 128 \<le> v div 8 \<and>
         \<not> max 1 (v div 8) < 8 \<and> \<not> skipped v"
proof -
  define a where "a = trunc_log2 up (max 1024 (kb * 1024))"
  have "10 \<le> floor_log2 (max 1024 (kb * 1024))" by (rule floor_log2_ge_10) simp
  then have a10: "10 \<le> a"
    unfolding a_def using trunc_log2_ge [of "max 1024 (kb * 1024)" up] by linarith
  from assms obtain p where p: "a \<le> p" "v = 2 ^ nat p"
    by (auto simp: generate_sizes_eq a_def)
  define j where "j = nat p - 10"
  from p(1) a10 have "nat p = 10 + j" by (simp add: j_def)
  then have v: "v = 1024 * 2 ^ j" using p(2) by (simp add: power_add)
  have j1: "(1::int) \<le> 2 ^ j" by simp
  have m: "v mod 8 = 0" unfolding v by simp
  have d: "v div 8 = 128 * 2 ^ j" unfolding v by simp
  have g: "128 \<le> v div 8" unfolding d using j1 by linarith
  have b: "1024 \<le> v" unfolding v using j1 by linarith
  show ?thesis using p(2) m g b by (simp add: is_pow2_power skipped_def)
qed

theorem generated_size_never_skipped_witness:
  "generate_sizes (\<lambda>x. True) 16 65536 = Inr [16384, 32768, 65536] \<and>
   (16384 :: int) \<in> set [16384, 32768, 65536] \<and>
   (16384 :: int) mod 8 = 0 \<and> \<not> skipped 16384"
proof -
  have ev: "generate_sizes (\<lambda>x. True) 16 65536 = Inr [16384, 32768, 65536]"
    by (simp add: generate_sizes_def int_log2_def trunc_log2_def py_range_def floor_log2.simps
        range_up.simps shl_def)
  have m: "(16384 :: int) \<in> set [16384, 32768, 65536]" by simp
  from generated_size_never_skipped [OF ev m] ev show ?thesis by simp
qed

section \<open>Facts about ranges, walks and the measurers\<close>

lemma ceil_div_bounds:
  assumes "0 < (b::int)"
  shows "((a + b - 1) div b - 1) * b < a \<and> a \<le> (a + b - 1) div b * b"
proof -
  define q where "q = (a + b - 1) div b"
  define r where "r = (a + b - 1) mod b"
  have eq: "a + b - 1 = q * b + r" by (simp add: q_def r_def)
  have r: "0 \<le> r" "r < b" using assms by (simp_all add: r_def)
  have "(q - 1) * b = q * b - b" by (simp add: algebra_simps)
  with eq r show ?thesis unfolding q_def [symmetric] by linarith
qed

lemma ceil_div_least:
  assumes "0 < (b::int)" "a \<le> k * b"
  shows "(a + b - 1) div b \<le> k"
proof -
  from ceil_div_bounds [OF assms(1), of a] assms(2)
  have "((a + b - 1) div b - 1) * b < k * b" by linarith
  with assms(1) have "(a + b - 1) div b - 1 < k" by (simp add: mult_less_cancel_right)
  then show ?thesis by simp
qed

lemma ceil_div_eq:
  assumes "0 < (b::int)"
  shows "(a + b - 1) div b = \<lceil>(of_int a :: rat) / of_int b\<rceil>"
proof -
  define q where "q = (a + b - 1) div b"
  from ceil_div_bounds [OF assms, of a]
  have b: "(q - 1) * b < a" "a \<le> q * b" by (simp_all add: q_def)
  have pos: "(0::rat) < of_int b" using assms by simp
  have "(of_int ((q - 1) * b) :: rat) < of_int a" using b(1) by (simp only: of_int_less_iff)
  then have lo: "(of_int q :: rat) - 1 < of_int a / of_int b"
    using pos by (simp add: pos_less_divide_eq)
  have "(of_int a :: rat) \<le> of_int (q * b)" using b(2) by (simp only: of_int_le_iff)
  then have hi: "(of_int a :: rat) / of_int b \<le> of_int q"
    using pos by (simp add: pos_divide_le_eq)
  from lo hi have "\<lceil>(of_int a :: rat) / of_int b\<rceil> = q" by (rule ceiling_unique)
  then show ?thesis by (simp add: q_def)
qed

lemma range_up_length:
  "0 < step \<Longrightarrow> length (range_up i stop step) = nat ((stop - i + step - 1) div step)"
proof (induction i stop step rule: range_up.induct)
  case (1 i stop step)
  show ?case
  proof (cases "i < stop")
    case True
    with "1.prems" "1.IH"
    have ih: "length (range_up (i + step) stop step) = nat ((stop - (i + step) + step - 1) div step)"
      by simp
    have "(stop - i + step - 1) div step = ((stop - i - 1) + step) div step"
      by (simp add: algebra_simps)
    also have "\<dots> = (stop - i - 1) div step + 1"
      using "1.prems" by simp
    finally have "(stop - i + step - 1) div step = (stop - i - 1) div step + 1" .
    have "0 \<le> (stop - i - 1) div step"
      using True "1.prems" by (simp add: pos_imp_zdiv_nonneg_iff)
    moreover have "stop - (i + step) + step - 1 = stop - i - 1" by simp
    moreover note \<open>(stop - i + step - 1) div step = (stop - i - 1) div step + 1\<close>
    ultimately show ?thesis
      using True "1.prems" ih by (subst range_up.simps) (simp add: nat_add_distrib)
  next
    case False
    then have "stop - i + step - 1 \<le> step - 1" by simp
    then have "(stop - i + step - 1) div step \<le> (step - 1) div step"
      using "1.prems" by (rule zdiv_mono1)
    also have "(step - 1) div step = 0"
      using "1.prems" by (simp add: div_pos_pos_trivial)
    finally have "(stop - i + step - 1) div step \<le> 0" .
    with False show ?thesis by (subst range_up.simps) simp
  qed
qed


lemma range_up_bounds: "x \<in> set (range_up i stop step) \<Longrightarrow> i \<le> x \<and> x < stop"
proof (induction i stop step rule: range_up.induct)
  case (1 i stop step)
  from "1.prems" have c: "0 < step \<and> i < stop"
    by (subst (asm) range_up.simps) (simp split: if_splits)
  with "1.prems" have "x = i \<or> x \<in> set (range_up (i + step) stop step)"
    by (subst (asm) range_up.simps) simp
  with "1.IH" c show ?case by force
qed

lemma walk_inv:
  assumes rd: "\<And>i v. rd i = Inr v \<Longrightarrow> Q v"
    and step: "\<And>s v. P s \<Longrightarrow> Q v \<Longrightarrow> P (s XOR v)"
  shows "P s \<Longrightarrow> walk rd idxs (s, k) = Inr (s', k') \<Longrightarrow> P s' \<and> k' = k + length idxs"
proof (induction idxs arbitrary: s k)
  case Nil
  then show ?case by simp
next
  case (Cons i idxs)
  from Cons.prems(2) obtain v where v: "rd i = Inr v"
    and w: "walk rd idxs (s XOR v, Suc k) = Inr (s', k')"
    by (auto split: sum.splits)
  from Cons.prems(1) rd [OF v] have "P (s XOR v)" by (rule step)
  from Cons.IH [OF this w] show ?case by simp
qed

lemma walk_total:
  "\<forall>i\<in>set idxs. \<exists>v. rd i = Inr v \<Longrightarrow> \<exists>s' k'. walk rd idxs (s, k) = Inr (s', k')"
proof (induction idxs arbitrary: s k)
  case Nil
  then show ?case by simp
next
  case (Cons i idxs)
  then obtain v where v: "rd i = Inr v" by auto
  from Cons.IH [of "s XOR v" "Suc k"] Cons.prems v show ?case by simp
qed

lemma timed_loops_inv:
  assumes rd: "\<And>i v. rd i = Inr v \<Longrightarrow> Q v"
    and step: "\<And>s v. P s \<Longrightarrow> Q v \<Longrightarrow> P (s XOR v)"
  shows "P s \<Longrightarrow> timed_loops rd n st l (s, k) = Inr (s', k') \<Longrightarrow> P s'"
proof (induction l arbitrary: s k)
  case 0
  then show ?case by simp
next
  case (Suc l)
  from Suc.prems(2) obtain idxs s1 k1 where
    w: "walk rd idxs (s, k) = Inr (s1, k1)"
    and t: "timed_loops rd n st l (s1, k1) = Inr (s', k')"
    by (auto split: sum.splits)
  from walk_inv [of rd Q P, OF rd step Suc.prems(1) w] have "P s1" by simp
  from Suc.IH [OF this t] show ?case .
qed

lemma timed_loops_reads:
  assumes "1 \<le> st"
  shows "timed_loops rd n st l (s, k) = Inr (s', k') \<Longrightarrow>
         k' = k + l * length (range_up 0 n st)"
proof (induction l arbitrary: s k)
  case 0
  then show ?case by simp
next
  case (Suc l)
  from Suc.prems assms obtain s1 k1 where
    w: "walk rd (range_up 0 n st) (s, k) = Inr (s1, k1)"
    and t: "timed_loops rd n st l (s1, k1) = Inr (s', k')"
    by (auto simp: py_range_def split: sum.splits if_splits)
  from walk_inv [of rd "\<lambda>v. True" "\<lambda>s. True", OF _ _ _ w]
  have "k1 = k + length (range_up 0 n st)" by simp
  with Suc.IH [OF t] show ?case by simp
qed

lemma timed_loops_total:
  assumes "1 \<le> st" "\<forall>i\<in>set (range_up 0 n st). \<exists>v. rd i = Inr v"
  shows "\<exists>s' k'. timed_loops rd n st l (s, k) = Inr (s', k')"
proof (induction l arbitrary: s k)
  case 0
  then show ?case by simp
next
  case (Suc l)
  from walk_total [OF assms(2), of s k] obtain s1 k1
    where w: "walk rd (range_up 0 n st) (s, k) = Inr (s1, k1)" by blast
  from Suc.IH [of s1 k1] w assms(1) show ?case by (simp add: py_range_def)
qed

lemma array_get_zero: "array_get (replicate m 0) i = Inr v \<Longrightarrow> v = 0"
  by (auto simp: array_get_def Let_def split: if_splits)

lemma array_get_ok:
  "0 \<le> i \<Longrightarrow> i < n \<Longrightarrow> \<exists>v. array_get (replicate (nat n) 0) i = Inr v"
  by (simp add: array_get_def Let_def)

lemma range_up_nonneg: "0 \<le> i \<Longrightarrow> x \<in> set (range_up i stop step) \<Longrightarrow> 0 \<le> x"
  using range_up_bounds [of x i stop step] by simp

lemma list_get_nonneg: "list_get (range_up 0 n 1) i = Inr v \<Longrightarrow> 0 \<le> v"
proof -
  assume "list_get (range_up 0 n 1) i = Inr v"
  then have "v \<in> set (range_up 0 n 1)"
    by (auto simp: list_get_def Let_def split: if_splits)
  then show ?thesis by (rule range_up_nonneg [rotated]) simp
qed

lemma list_get_ok:
  "0 \<le> i \<Longrightarrow> i < n \<Longrightarrow> list_get (range_up 0 n 1) i = Inr i"
  by (simp add: list_get_def Let_def range_up_one)

lemma total_nonzero: "max 1 q' * max (1::int) q \<noteq> 0"
  by (simp add: max_def)

lemma floordiv_nz: "b \<noteq> 0 \<Longrightarrow> floordiv a b = Inr (a div b)"
  by (simp add: floordiv_def)

lemma floordiv_max: "floordiv a (max 1 q) = Inr (a div max 1 q)"
  by (rule floordiv_nz) (simp add: max_def)

lemma truediv_total: "truediv a (max 1 q' * max 1 q) = Inr (of_int a / of_int (max 1 q' * max 1 q))"
  using total_nonzero [of q' q] by (simp only: truediv_def if_False)

lemma measure_array_unfold:
  assumes "st \<noteq> 0"
  shows "measure_stride_reads_array env n st m wu t =
     (if alloc_fails env ArrayQ t n then (Inl (alloc_error n), t)
         else case (if wu
              then (case py_range 0 n st of Inl e \<Rightarrow> Inl e
                    | Inr idxs \<Rightarrow> walk (array_get (replicate (nat n) 0)) idxs (0, 0))
              else Inr (0, 0)) of
          Inl e \<Rightarrow> (Inl e, t)
        | Inr (s_warm, wr) \<Rightarrow>
        (case timed_loops (array_get (replicate (nat n) 0)) n st
                (nat (max 1 ((m + max 1 ((n + st - 1) div st) - 1) div max 1 ((n + st - 1) div st))))
                (0, 0) of
          Inl e \<Rightarrow> (Inl e, Suc t)
        | Inr (s, reads) \<Rightarrow>
            (Inr \<lparr>accesses_per_loop = max 1 ((n + st - 1) div st),
                  loops = max 1 ((m + max 1 ((n + st - 1) div st) - 1) div max 1 ((n + st - 1) div st)),
                  total_accesses = max 1 ((m + max 1 ((n + st - 1) div st) - 1) div max 1 ((n + st - 1) div st))
                     * max 1 ((n + st - 1) div st),
                  warm_reads = wr, timed_reads = reads, s_final = s,
                  printed = (s = - 1),
                  ns_per_access = of_int (clock env (Suc t) - clock env t) /
                     of_int (max 1 ((m + max 1 ((n + st - 1) div st) - 1) div max 1 ((n + st - 1) div st))
                       * max 1 ((n + st - 1) div st))\<rparr>,
             Suc (Suc t))))"
  unfolding measure_stride_reads_array_def Let_def floordiv_nz [OF assms] floordiv_max truediv_total
    sum.case ..


lemma measure_array_stride_zero:
  "\<exists>e t'. measure_stride_reads_array env n 0 m wu t = (Inl e, t')"
  by (simp add: measure_stride_reads_array_def Let_def floordiv_def py_range_def)

lemma measure_array_cases:
  assumes "measure_stride_reads_array env n st m wu t = (Inr r, t')"
  obtains s reads wr apl lps where
    "st \<noteq> 0" "\<not> alloc_fails env ArrayQ t n" "t' = Suc (Suc t)"
    "apl = max 1 ((n + st - 1) div st)" "lps = max 1 ((m + apl - 1) div apl)"
    "timed_loops (array_get (replicate (nat n) 0)) n st (nat lps) (0, 0) = Inr (s, reads)"
    "r = \<lparr>accesses_per_loop = apl, loops = lps, total_accesses = lps * apl,
          warm_reads = wr, timed_reads = reads, s_final = s, printed = (s = - 1),
          ns_per_access = of_int (clock env (Suc t) - clock env t) / of_int (lps * apl)\<rparr>"
    "if wu then \<exists>idxs s0. py_range 0 n st = Inr idxs \<and>
        walk (array_get (replicate (nat n) 0)) idxs (0, 0) = Inr (s0, wr) else wr = 0"
proof -
  have st: "st \<noteq> 0"
    using assms measure_array_stride_zero [of env n m wu t] by auto
  define apl where "apl = max 1 ((n + st - 1) div st)"
  define lps where "lps = max 1 ((m + apl - 1) div apl)"
  define W where "W = (if wu
              then (case py_range 0 n st of Inl e \<Rightarrow> Inl e
                    | Inr idxs \<Rightarrow> walk (array_get (replicate (nat n) 0)) idxs (0, 0))
              else Inr (0, 0))"
  define T where "T = timed_loops (array_get (replicate (nat n) 0)) n st (nat lps) (0, 0)"
  define ns where "ns = (of_int (clock env (Suc t) - clock env t) / of_int (lps * apl) :: rat)"
  have eq: "measure_stride_reads_array env n st m wu t =
      (if alloc_fails env ArrayQ t n then (Inl (alloc_error n), t)
       else case W of Inl e \<Rightarrow> (Inl e, t)
        | Inr (s_warm, wr) \<Rightarrow>
        (case T of Inl e \<Rightarrow> (Inl e, Suc t)
        | Inr (s, reads) \<Rightarrow>
            (Inr \<lparr>accesses_per_loop = apl, loops = lps, total_accesses = lps * apl,
                  warm_reads = wr, timed_reads = reads, s_final = s,
                  printed = (s = - 1), ns_per_access = ns\<rparr>, Suc (Suc t))))"
    unfolding measure_array_unfold [OF st] W_def T_def apl_def lps_def ns_def ..
  from assms eq have na: "\<not> alloc_fails env ArrayQ t n" by auto
  from assms eq na obtain s_warm wr where w: "W = Inr (s_warm, wr)"
    by (cases W) auto
  from assms eq na w obtain s reads where tl: "T = Inr (s, reads)"
    by (cases T) auto
  from assms eq na w tl have r: "r = \<lparr>accesses_per_loop = apl, loops = lps, total_accesses = lps * apl,
                  warm_reads = wr, timed_reads = reads, s_final = s,
                  printed = (s = - 1), ns_per_access = ns\<rparr>" and t': "t' = Suc (Suc t)"
    by simp_all
  have warm: "if wu then \<exists>idxs s0. py_range 0 n st = Inr idxs \<and>
        walk (array_get (replicate (nat n) 0)) idxs (0, 0) = Inr (s0, wr) else wr = 0"
    using w unfolding W_def by (cases wu; cases "py_range 0 n st") auto
  show ?thesis
    by (rule that [OF st na t' apl_def lps_def _ _ warm])
       (use tl r in \<open>simp_all only: T_def ns_def\<close>)
qed

lemma measure_array_total:
  assumes "\<not> alloc_fails env ArrayQ t n" "1 \<le> st"
  shows "\<exists>r. measure_stride_reads_array env n st m wu t = (Inr r, Suc (Suc t))"
proof -
  let ?rd = "array_get (replicate (nat n) 0)"
  have reads: "\<forall>i\<in>set (range_up 0 n st). \<exists>v. ?rd i = Inr v"
    using range_up_bounds [of _ 0 n st] by (auto intro: array_get_ok)
  from walk_total [OF reads, of 0 0] obtain s0 k0
    where w: "walk ?rd (range_up 0 n st) (0, 0) = Inr (s0, k0)" by blast
  define lps where "lps = max 1 ((m + max 1 ((n + st - 1) div st) - 1) div max 1 ((n + st - 1) div st))"
  from timed_loops_total [OF assms(2) reads, of "nat lps" 0 0] obtain s1 k1
    where tl: "timed_loops ?rd n st (nat lps) (0, 0) = Inr (s1, k1)" by blast
  from assms(2) have st: "st \<noteq> 0" "0 < st" by simp_all
  have rng: "py_range 0 n st = Inr (range_up 0 n st)"
    using st by (simp add: py_range_def)
  show ?thesis
    unfolding measure_array_unfold [OF st(1)] lps_def [symmetric] rng sum.case w tl
    using assms(1) by (cases wu) simp_all
qed

lemma measure_list_unfold:
  assumes "st \<noteq> 0"
  shows "measure_stride_reads_list env n st m wu t =
     (if alloc_fails env PyList t n then (Inl (alloc_error n), t)
         else case (if wu
              then (case py_range 0 n st of Inl e \<Rightarrow> Inl e
                    | Inr idxs \<Rightarrow> walk (list_get (range_up 0 n 1)) idxs (0, 0))
              else Inr (0, 0)) of
          Inl e \<Rightarrow> (Inl e, t)
        | Inr (s_warm, wr) \<Rightarrow>
        (case timed_loops (list_get (range_up 0 n 1)) n st
                (nat (max 1 ((m + max 1 ((n + st - 1) div st) - 1) div max 1 ((n + st - 1) div st))))
                (0, 0) of
          Inl e \<Rightarrow> (Inl e, Suc t)
        | Inr (s, reads) \<Rightarrow>
            (Inr \<lparr>accesses_per_loop = max 1 ((n + st - 1) div st),
                  loops = max 1 ((m + max 1 ((n + st - 1) div st) - 1) div max 1 ((n + st - 1) div st)),
                  total_accesses = max 1 ((m + max 1 ((n + st - 1) div st) - 1) div max 1 ((n + st - 1) div st))
                     * max 1 ((n + st - 1) div st),
                  warm_reads = wr, timed_reads = reads, s_final = s,
                  printed = (s = - 1),
                  ns_per_access = of_int (clock env (Suc t) - clock env t) /
                     of_int (max 1 ((m + max 1 ((n + st - 1) div st) - 1) div max 1 ((n + st - 1) div st))
                       * max 1 ((n + st - 1) div st))\<rparr>,
             Suc (Suc t))))"
  unfolding measure_stride_reads_list_def Let_def floordiv_nz [OF assms] floordiv_max truediv_total
    sum.case ..


lemma measure_list_stride_zero:
  "\<exists>e t'. measure_stride_reads_list env n 0 m wu t = (Inl e, t')"
  by (simp add: measure_stride_reads_list_def Let_def floordiv_def py_range_def)

lemma measure_list_cases:
  assumes "measure_stride_reads_list env n st m wu t = (Inr r, t')"
  obtains s reads wr apl lps where
    "st \<noteq> 0" "\<not> alloc_fails env PyList t n" "t' = Suc (Suc t)"
    "apl = max 1 ((n + st - 1) div st)" "lps = max 1 ((m + apl - 1) div apl)"
    "timed_loops (list_get (range_up 0 n 1)) n st (nat lps) (0, 0) = Inr (s, reads)"
    "r = \<lparr>accesses_per_loop = apl, loops = lps, total_accesses = lps * apl,
          warm_reads = wr, timed_reads = reads, s_final = s, printed = (s = - 1),
          ns_per_access = of_int (clock env (Suc t) - clock env t) / of_int (lps * apl)\<rparr>"
    "if wu then \<exists>idxs s0. py_range 0 n st = Inr idxs \<and>
        walk (list_get (range_up 0 n 1)) idxs (0, 0) = Inr (s0, wr) else wr = 0"
proof -
  have st: "st \<noteq> 0"
    using assms measure_list_stride_zero [of env n m wu t] by auto
  define apl where "apl = max 1 ((n + st - 1) div st)"
  define lps where "lps = max 1 ((m + apl - 1) div apl)"
  define W where "W = (if wu
              then (case py_range 0 n st of Inl e \<Rightarrow> Inl e
                    | Inr idxs \<Rightarrow> walk (list_get (range_up 0 n 1)) idxs (0, 0))
              else Inr (0, 0))"
  define T where "T = timed_loops (list_get (range_up 0 n 1)) n st (nat lps) (0, 0)"
  define ns where "ns = (of_int (clock env (Suc t) - clock env t) / of_int (lps * apl) :: rat)"
  have eq: "measure_stride_reads_list env n st m wu t =
      (if alloc_fails env PyList t n then (Inl (alloc_error n), t)
       else case W of Inl e \<Rightarrow> (Inl e, t)
        | Inr (s_warm, wr) \<Rightarrow>
        (case T of Inl e \<Rightarrow> (Inl e, Suc t)
        | Inr (s, reads) \<Rightarrow>
            (Inr \<lparr>accesses_per_loop = apl, loops = lps, total_accesses = lps * apl,
                  warm_reads = wr, timed_reads = reads, s_final = s,
                  printed = (s = - 1), ns_per_access = ns\<rparr>, Suc (Suc t))))"
    unfolding measure_list_unfold [OF st] W_def T_def apl_def lps_def ns_def ..
  from assms eq have na: "\<not> alloc_fails env PyList t n" by auto
  from assms eq na obtain s_warm wr where w: "W = Inr (s_warm, wr)"
    by (cases W) auto
  from assms eq na w obtain s reads where tl: "T = Inr (s, reads)"
    by (cases T) auto
  from assms eq na w tl have r: "r = \<lparr>accesses_per_loop = apl, loops = lps, total_accesses = lps * apl,
                  warm_reads = wr, timed_reads = reads, s_final = s,
                  printed = (s = - 1), ns_per_access = ns\<rparr>" and t': "t' = Suc (Suc t)"
    by simp_all
  have warm: "if wu then \<exists>idxs s0. py_range 0 n st = Inr idxs \<and>
        walk (list_get (range_up 0 n 1)) idxs (0, 0) = Inr (s0, wr) else wr = 0"
    using w unfolding W_def by (cases wu; cases "py_range 0 n st") auto
  show ?thesis
    by (rule that [OF st na t' apl_def lps_def _ _ warm])
       (use tl r in \<open>simp_all only: T_def ns_def\<close>)
qed

lemma measure_list_total:
  assumes "\<not> alloc_fails env PyList t n" "1 \<le> st"
  shows "\<exists>r. measure_stride_reads_list env n st m wu t = (Inr r, Suc (Suc t))"
proof -
  let ?rd = "list_get (range_up 0 n 1)"
  have reads: "\<forall>i\<in>set (range_up 0 n st). \<exists>v. ?rd i = Inr v"
    using range_up_bounds [of _ 0 n st] by (auto intro: list_get_ok)
  from walk_total [OF reads, of 0 0] obtain s0 k0
    where w: "walk ?rd (range_up 0 n st) (0, 0) = Inr (s0, k0)" by blast
  define lps where "lps = max 1 ((m + max 1 ((n + st - 1) div st) - 1) div max 1 ((n + st - 1) div st))"
  from timed_loops_total [OF assms(2) reads, of "nat lps" 0 0] obtain s1 k1
    where tl: "timed_loops ?rd n st (nat lps) (0, 0) = Inr (s1, k1)" by blast
  from assms(2) have st: "st \<noteq> 0" "0 < st" by simp_all
  have rng: "py_range 0 n st = Inr (range_up 0 n st)"
    using st by (simp add: py_range_def)
  show ?thesis
    unfolding measure_list_unfold [OF st(1)] lps_def [symmetric] rng sum.case w tl
    using assms(1) by (cases wu) simp_all
qed

lemma loops_minimal:
  fixes apl m :: int
  defines "lps \<equiv> max 1 ((m + apl - 1) div apl)"
  assumes "1 \<le> apl"
  shows "1 \<le> lps \<and> m \<le> lps * apl \<and> (\<forall>k. 1 \<le> k \<and> m \<le> k * apl \<longrightarrow> lps \<le> k)"
proof -
  from assms(2) have pos: "0 < apl" by simp
  have a: "m \<le> lps * apl"
  proof -
    have "m \<le> (m + apl - 1) div apl * apl" using ceil_div_bounds [OF pos, of m] by simp
    also have "\<dots> \<le> lps * apl" using pos by (simp add: lps_def mult_right_mono)
    finally show ?thesis .
  qed
  have b: "lps \<le> k" if "1 \<le> k" "m \<le> k * apl" for k
    using ceil_div_least [OF pos that(2)] that(1) by (simp add: lps_def)
  from a b show ?thesis by (simp add: lps_def)
qed

lemma ceil_div_pos:
  assumes "1 \<le> (n::int)" "1 \<le> st"
  shows "1 \<le> (n + st - 1) div st"
proof -
  from assms have "st \<le> n + st - 1" by simp
  then have "st div st \<le> (n + st - 1) div st" using assms(2) by (intro zdiv_mono1) simp_all
  with assms(2) show ?thesis by simp
qed

lemma walk_reads:
  "walk rd idxs (s, k) = Inr (s', k') \<Longrightarrow> k' = k + length idxs"
  using walk_inv [of rd "\<lambda>v. True" "\<lambda>s. True" s idxs k s' k'] by simp

lemma walk_reads_total:
  assumes "\<forall>i\<in>set idxs. \<exists>v. rd i = Inr v"
  shows "\<exists>s'. walk rd idxs (s, k) = Inr (s', k + length idxs)"
proof -
  from walk_total [OF assms, of s k] obtain s' k'
    where w: "walk rd idxs (s, k) = Inr (s', k')" by blast
  from walk_reads [OF w] w show ?thesis by blast
qed

lemma walk_fold:
  assumes "\<forall>i\<in>set idxs. rd i = Inr (vals i)"
  shows "walk rd idxs (s, k) = Inr (fold (\<lambda>i acc. acc XOR vals i) idxs s, k + length idxs)"
  using assms by (induction idxs arbitrary: s k) simp_all

lemma walk_fails:
  assumes "\<exists>i\<in>set idxs. \<exists>e. rd i = Inl e"
  shows "\<exists>e. walk rd idxs (s, k) = Inl e"
  using assms
proof (induction idxs arbitrary: s k)
  case Nil then show ?case by simp
next
  case (Cons i idxs)
  show ?case
  proof (cases "rd i")
    case (Inl e) then show ?thesis by simp
  next
    case (Inr v)
    with Cons.prems have "\<exists>i\<in>set idxs. \<exists>e. rd i = Inl e" by auto
    from Cons.IH [OF this, of "s XOR v" "Suc k"] Inr show ?thesis by simp
  qed
qed

lemma timed_loops_fold:
  assumes "1 \<le> st" "\<forall>i\<in>set (range_up 0 n st). rd i = Inr (vals i)"
  shows "timed_loops rd n st l (s, k) =
     Inr ((fold (\<lambda>i acc. acc XOR vals i) (range_up 0 n st) ^^ l) s,
          k + l * length (range_up 0 n st))"
proof (induction l arbitrary: s k)
  case 0 show ?case by simp
next
  case (Suc l)
  have rng: "py_range 0 n st = Inr (range_up 0 n st)" using assms(1) by (simp add: py_range_def)
  show ?case
    by (simp add: rng walk_fold [OF assms(2)] Suc.IH funpow_swap1)
qed

lemma range_up_map:
  "0 < step \<Longrightarrow> range_up i stop step =
     map (\<lambda>j. i + int j * step) [0..<nat ((stop - i + step - 1) div step)]"
proof (induction i stop step rule: range_up.induct)
  case (1 i stop step)
  define c where "c = nat ((stop - i + step - 1) div step)"
  show ?case
  proof (cases "i < stop")
    case True
    have len: "length (range_up i stop step) = c"
      unfolding c_def by (rule range_up_length [OF "1.prems"])
    have len': "length (range_up (i + step) stop step) = nat ((stop - (i + step) + step - 1) div step)"
      by (rule range_up_length [OF "1.prems"])
    have unf: "range_up i stop step = i # range_up (i + step) stop step"
      using True "1.prems" by (subst range_up.simps) simp
    from len len' unf have c: "c = Suc (nat ((stop - (i + step) + step - 1) div step))" by simp
    from "1.IH" True "1.prems"
    have ih: "range_up (i + step) stop step =
       map (\<lambda>j. i + step + int j * step) [0..<nat ((stop - (i + step) + step - 1) div step)]"
      by simp
    have "map (\<lambda>j. i + int j * step) [0..<c] =
        i # map (\<lambda>j. i + int j * step) (map Suc [0..<nat ((stop - (i + step) + step - 1) div step)])"
      unfolding c by (simp only: upt_conv_Cons [of 0] map_Suc_upt [symmetric]) simp
    also have "\<dots> = i # range_up (i + step) stop step"
      unfolding ih by (simp add: algebra_simps)
    finally show ?thesis unfolding c_def [symmetric] unf by simp
  next
    case False
    have "length (range_up i stop step) = c" unfolding c_def by (rule range_up_length [OF "1.prems"])
    moreover have "range_up i stop step = []" using False by (subst range_up.simps) simp
    ultimately show ?thesis unfolding c_def [symmetric] by simp
  qed
qed

lemma array_get_in_range:
  "0 \<le> i \<Longrightarrow> i < int (length data) \<Longrightarrow> array_get data i = Inr (uint (data ! nat i))"
  by (simp add: array_get_def Let_def)

lemma list_get_in_range:
  "0 \<le> i \<Longrightarrow> i < int (length data) \<Longrightarrow> list_get data i = Inr (data ! nat i)"
  by (simp add: list_get_def Let_def)

section \<open>Claims about one measurement\<close>

text \<open>
  C3. For a valid stride (\<open>1 \<le> st\<close>) and buffers that can be built, both measurers return,
  and the loop count they compute is at least 1, makes \<open>loops * accesses_per_loop\<close> reach
  the floor \<open>m\<close> (\<^verbatim>\<open>min_accesses\<close>), and is the smallest positive integer that does so.
  For 1000 elements, stride 3 and a floor of 100 accesses the counts are 334 and 1.
\<close>

theorem loop_count_smallest:
  assumes "1 \<le> st" "\<not> alloc_fails env ArrayQ t n" "\<not> alloc_fails env PyList t n"
  shows "\<exists>ra rl.
     measure_stride_reads_array env n st m wu t = (Inr ra, Suc (Suc t)) \<and>
     measure_stride_reads_list env n st m wu t = (Inr rl, Suc (Suc t)) \<and>
     loop_count_ok m ra \<and> loop_count_ok m rl \<and>
     (n = 1000 \<and> st = 3 \<and> m = 100 \<longrightarrow>
        accesses_per_loop ra = 334 \<and> loops ra = 1 \<and>
        accesses_per_loop rl = 334 \<and> loops rl = 1)"
proof -
  from measure_array_total [OF assms(2,1)] obtain ra
    where ra: "measure_stride_reads_array env n st m wu t = (Inr ra, Suc (Suc t))" by blast
  from measure_list_total [OF assms(3,1)] obtain rl
    where rl: "measure_stride_reads_list env n st m wu t = (Inr rl, Suc (Suc t))" by blast
  define apl where "apl = max 1 ((n + st - 1) div st)"
  define lps where "lps = max 1 ((m + apl - 1) div apl)"
  from ra have fa: "accesses_per_loop ra = apl" "loops ra = lps"
    by (auto elim!: measure_array_cases simp only: apl_def lps_def measurement.simps)
  from rl have fl: "accesses_per_loop rl = apl" "loops rl = lps"
    by (auto elim!: measure_list_cases simp only: apl_def lps_def measurement.simps)
  have "1 \<le> apl" by (simp add: apl_def)
  from loops_minimal [OF this, of m]
  have ok: "loop_count_ok m ra" "loop_count_ok m rl"
    unfolding loop_count_ok_def fa fl lps_def by blast+
  have sc: "apl = 334 \<and> lps = 1" if "n = 1000" "st = 3" "m = 100"
    using that by (simp add: apl_def lps_def)
  from ra rl ok sc show ?thesis unfolding fa [symmetric] fl [symmetric]
    by (intro exI [of _ ra] exI [of _ rl]) (simp add: fa fl)
qed

theorem loop_count_smallest_witness:
  "(1::int) \<le> 3 \<and>
   \<not> alloc_fails \<lparr>clock = int, alloc_fails = \<lambda>k t n. False\<rparr> ArrayQ 0 1000 \<and>
   \<not> alloc_fails \<lparr>clock = int, alloc_fails = \<lambda>k t n. False\<rparr> PyList 0 1000 \<and>
   (\<exists>ra rl.
     measure_stride_reads_array \<lparr>clock = int, alloc_fails = \<lambda>k t n. False\<rparr> 1000 3 100 True 0
       = (Inr ra, Suc (Suc 0)) \<and>
     measure_stride_reads_list \<lparr>clock = int, alloc_fails = \<lambda>k t n. False\<rparr> 1000 3 100 True 0
       = (Inr rl, Suc (Suc 0)) \<and>
     loop_count_ok 100 ra \<and> loop_count_ok 100 rl \<and>
     accesses_per_loop ra = 334 \<and> loops ra = 1 \<and>
     accesses_per_loop rl = 334 \<and> loops rl = 1)"
  using loop_count_smallest [of 3 "\<lparr>clock = int, alloc_fails = \<lambda>k t n. False\<rparr>" 0 1000 100 True]
  by simp

text \<open>
  C4. For \<open>1 \<le> n\<close> elements and a stride \<open>1 \<le> st\<close>, both measurers compute
  \<open>accesses_per_loop = \<lceil>n / st\<rceil>\<close>. The range \<^verbatim>\<open>range(0, n, st)\<close> of one walk is the
  list of the indices \<open>0, st, 2 * st, \<dots>\<close> with exactly that many entries. One walk over a
  buffer of \<open>n\<close> elements (\<open>da\<close> for the array, \<open>dl\<close> for the list, of any contents) reads
  the element at each of these indices once, in order: its accumulator is the exclusive
  or of the start value with the elements at these indices, and its count of reads grows
  by \<open>\<lceil>n / st\<rceil>\<close>. The timed region repeats that walk \<open>loops\<close> times, the accumulator and
  the count reported by a measurer are those of the timed region over its own buffer, and
  the warm-up, when enabled, reads as many elements as one walk. The two variants agree.
\<close>

theorem accesses_per_sweep_is_ceiling:
  assumes "1 \<le> n" "1 \<le> st"
    and "\<not> alloc_fails env ArrayQ t n" "\<not> alloc_fails env PyList t n"
    and "length da = nat n" "length dl = nat n"
  shows "\<exists>ra rl.
     measure_stride_reads_array env n st m wu t = (Inr ra, Suc (Suc t)) \<and>
     measure_stride_reads_list env n st m wu t = (Inr rl, Suc (Suc t)) \<and>
     accesses_per_loop ra = \<lceil>(of_int n :: rat) / of_int st\<rceil> \<and>
     accesses_per_loop rl = \<lceil>(of_int n :: rat) / of_int st\<rceil> \<and>
     py_range 0 n st = Inr (range_up 0 n st) \<and>
     range_up 0 n st = map (\<lambda>j. int j * st) [0..<nat \<lceil>(of_int n :: rat) / of_int st\<rceil>] \<and>
     walk (array_get da) (range_up 0 n st) (s, k)
       = Inr (fold (\<lambda>i acc. acc XOR uint (da ! nat i)) (range_up 0 n st) s,
              k + nat \<lceil>(of_int n :: rat) / of_int st\<rceil>) \<and>
     walk (list_get dl) (range_up 0 n st) (s, k)
       = Inr (fold (\<lambda>i acc. acc XOR dl ! nat i) (range_up 0 n st) s,
              k + nat \<lceil>(of_int n :: rat) / of_int st\<rceil>) \<and>
     timed_loops (array_get da) n st l (s, k)
       = Inr ((fold (\<lambda>i acc. acc XOR uint (da ! nat i)) (range_up 0 n st) ^^ l) s,
              k + l * nat \<lceil>(of_int n :: rat) / of_int st\<rceil>) \<and>
     timed_loops (list_get dl) n st l (s, k)
       = Inr ((fold (\<lambda>i acc. acc XOR dl ! nat i) (range_up 0 n st) ^^ l) s,
              k + l * nat \<lceil>(of_int n :: rat) / of_int st\<rceil>) \<and>
     timed_loops (array_get (replicate (nat n) 0)) n st (nat (loops ra)) (0, 0)
       = Inr (s_final ra, timed_reads ra) \<and>
     timed_loops (list_get (range_up 0 n 1)) n st (nat (loops rl)) (0, 0)
       = Inr (s_final rl, timed_reads rl) \<and>
     timed_reads ra = nat (loops ra) * nat (accesses_per_loop ra) \<and>
     timed_reads rl = nat (loops rl) * nat (accesses_per_loop rl) \<and>
     (wu \<longrightarrow> warm_reads ra = nat (accesses_per_loop ra) \<and>
             warm_reads rl = nat (accesses_per_loop rl))"
proof -
  define c where "c = \<lceil>(of_int n :: rat) / of_int st\<rceil>"
  define idxs where "idxs = range_up 0 n st"
  from assms(2) have st0: "0 < st" by simp
  have c: "(n + st - 1) div st = c" unfolding c_def by (rule ceil_div_eq [OF st0])
  have c1: "1 \<le> c" using ceil_div_pos [OF assms(1,2)] c by simp
  have apl: "max 1 ((n + st - 1) div st) = c" using c c1 by simp
  have len: "length idxs = nat c"
    unfolding idxs_def using range_up_length [OF st0, of 0 n] c by simp
  have rng: "py_range 0 n st = Inr idxs"
    unfolding idxs_def using st0 by (simp add: py_range_def)
  have mp: "idxs = map (\<lambda>j. int j * st) [0..<nat c]"
    unfolding idxs_def using range_up_map [OF st0, of 0 n] c by simp
  have bnd: "0 \<le> i \<and> i < n" if "i \<in> set idxs" for i
    using that range_up_bounds [of i 0 n st] unfolding idxs_def by simp
  have rd_a: "\<forall>i\<in>set idxs. array_get da i = Inr (uint (da ! nat i))"
    using bnd assms(1,5) by (auto intro!: array_get_in_range)
  have rd_l: "\<forall>i\<in>set idxs. list_get dl i = Inr (dl ! nat i)"
    using bnd assms(1,6) by (auto intro!: list_get_in_range)
  have wa: "walk (array_get da) idxs (s, k)
       = Inr (fold (\<lambda>i acc. acc XOR uint (da ! nat i)) idxs s, k + nat c)"
    using walk_fold [OF rd_a, of s k] len by simp
  have wl: "walk (list_get dl) idxs (s, k)
       = Inr (fold (\<lambda>i acc. acc XOR dl ! nat i) idxs s, k + nat c)"
    using walk_fold [OF rd_l, of s k] len by simp
  have ta: "timed_loops (array_get da) n st l (s, k)
       = Inr ((fold (\<lambda>i acc. acc XOR uint (da ! nat i)) idxs ^^ l) s, k + l * nat c)"
    using timed_loops_fold [OF assms(2) rd_a [unfolded idxs_def], of l s k] len
    unfolding idxs_def by simp
  have tl: "timed_loops (list_get dl) n st l (s, k)
       = Inr ((fold (\<lambda>i acc. acc XOR dl ! nat i) idxs ^^ l) s, k + l * nat c)"
    using timed_loops_fold [OF assms(2) rd_l [unfolded idxs_def], of l s k] len
    unfolding idxs_def by simp
  from measure_array_total [OF assms(3,2)] obtain ra
    where ra: "measure_stride_reads_array env n st m wu t = (Inr ra, Suc (Suc t))" by blast
  from measure_list_total [OF assms(4,2)] obtain rl
    where rl: "measure_stride_reads_list env n st m wu t = (Inr rl, Suc (Suc t))" by blast
  from ra have fa: "accesses_per_loop ra = c \<and> timed_reads ra = nat (loops ra) * nat c \<and>
      (wu \<longrightarrow> warm_reads ra = nat c) \<and>
      timed_loops (array_get (replicate (nat n) 0)) n st (nat (loops ra)) (0, 0)
        = Inr (s_final ra, timed_reads ra)"
  proof (rule measure_array_cases)
    fix s reads wr apl lps
    assume apl': "apl = max 1 ((n + st - 1) div st)"
      and tl: "timed_loops (array_get (replicate (nat n) 0)) n st (nat lps) (0, 0) = Inr (s, reads)"
      and r: "ra = \<lparr>accesses_per_loop = apl, loops = lps, total_accesses = lps * apl,
          warm_reads = wr, timed_reads = reads, s_final = s, printed = (s = - 1),
          ns_per_access = of_int (clock env (Suc t) - clock env t) / of_int (lps * apl)\<rparr>"
      and w: "if wu then \<exists>idxs s0. py_range 0 n st = Inr idxs \<and>
        walk (array_get (replicate (nat n) 0)) idxs (0, 0) = Inr (s0, wr) else wr = 0"
    have apl: "apl = c" using apl' apl by simp
    from timed_loops_reads [OF assms(2) tl] have "reads = nat (loops ra) * nat c"
      by (simp add: r len [unfolded idxs_def])
    moreover have "wr = nat c" if wu
      using w that rng walk_reads len by fastforce
    ultimately show ?thesis using tl by (simp add: r apl)
  qed
  from rl have fl: "accesses_per_loop rl = c \<and> timed_reads rl = nat (loops rl) * nat c \<and>
      (wu \<longrightarrow> warm_reads rl = nat c) \<and>
      timed_loops (list_get (range_up 0 n 1)) n st (nat (loops rl)) (0, 0)
        = Inr (s_final rl, timed_reads rl)"
  proof (rule measure_list_cases)
    fix s reads wr apl lps
    assume apl': "apl = max 1 ((n + st - 1) div st)"
      and tl: "timed_loops (list_get (range_up 0 n 1)) n st (nat lps) (0, 0) = Inr (s, reads)"
      and r: "rl = \<lparr>accesses_per_loop = apl, loops = lps, total_accesses = lps * apl,
          warm_reads = wr, timed_reads = reads, s_final = s, printed = (s = - 1),
          ns_per_access = of_int (clock env (Suc t) - clock env t) / of_int (lps * apl)\<rparr>"
      and w: "if wu then \<exists>idxs s0. py_range 0 n st = Inr idxs \<and>
        walk (list_get (range_up 0 n 1)) idxs (0, 0) = Inr (s0, wr) else wr = 0"
    have apl: "apl = c" using apl' apl by simp
    from timed_loops_reads [OF assms(2) tl] have "reads = nat (loops rl) * nat c"
      by (simp add: r len [unfolded idxs_def])
    moreover have "wr = nat c" if wu
      using w that rng walk_reads len by fastforce
    ultimately show ?thesis using tl by (simp add: r apl)
  qed
  from ra rl fa fl rng mp wa wl ta tl show ?thesis
    unfolding c_def [symmetric] idxs_def [symmetric]
    by (intro exI [of _ ra] exI [of _ rl]) simp
qed

theorem accesses_per_sweep_is_ceiling_witness:
  "(1::int) \<le> 4 \<and> (1::int) \<le> 2 \<and>
   \<not> alloc_fails \<lparr>clock = int, alloc_fails = \<lambda>k t n. False\<rparr> ArrayQ 0 4 \<and>
   \<not> alloc_fails \<lparr>clock = int, alloc_fails = \<lambda>k t n. False\<rparr> PyList 0 4 \<and>
   length [5, 6, 7, 8 :: 64 word] = nat 4 \<and> length [5, 6, 7, 8 :: int] = nat 4 \<and>
   (\<exists>ra rl.
     measure_stride_reads_array \<lparr>clock = int, alloc_fails = \<lambda>k t n. False\<rparr> 4 2 4 True 0
       = (Inr ra, Suc (Suc 0)) \<and>
     measure_stride_reads_list \<lparr>clock = int, alloc_fails = \<lambda>k t n. False\<rparr> 4 2 4 True 0
       = (Inr rl, Suc (Suc 0)) \<and>
     accesses_per_loop ra = 2 \<and> accesses_per_loop rl = 2 \<and>
     range_up 0 4 2 = [0, 2] \<and>
     walk (array_get [5, 6, 7, 8]) (range_up 0 4 2) (0, 0) = Inr (2, 2) \<and>
     walk (list_get [5, 6, 7, 8]) (range_up 0 4 2) (0, 0) = Inr (2, 2) \<and>
     timed_loops (array_get [5, 6, 7, 8]) 4 2 1 (0, 0) = Inr (2, 2) \<and>
     timed_loops (list_get [5, 6, 7, 8]) 4 2 1 (0, 0) = Inr (2, 2) \<and>
     timed_reads ra = nat (loops ra) * 2 \<and> timed_reads rl = nat (loops rl) * 2 \<and>
     warm_reads ra = 2 \<and> warm_reads rl = 2)"
proof -
  let ?env = "\<lparr>clock = int, alloc_fails = \<lambda>k t n. False\<rparr>"
  have c: "\<lceil>(of_int 4 :: rat) / of_int 2\<rceil> = 2" by simp
  have r: "range_up 0 4 2 = [0, 2]" by (simp add: range_up.simps)
  from accesses_per_sweep_is_ceiling
    [of 4 2 ?env 0 "[5, 6, 7, 8]" "[5, 6, 7, 8]" 4 True 0 0 1]
  obtain ra rl where
    "measure_stride_reads_array ?env 4 2 4 True 0 = (Inr ra, Suc (Suc 0))"
    "measure_stride_reads_list ?env 4 2 4 True 0 = (Inr rl, Suc (Suc 0))"
    "accesses_per_loop ra = 2" "accesses_per_loop rl = 2"
    "walk (array_get [5, 6, 7, 8]) (range_up 0 4 2) (0, 0) = Inr (2, 2)"
    "walk (list_get [5, 6, 7, 8]) (range_up 0 4 2) (0, 0) = Inr (2, 2)"
    "timed_loops (array_get [5, 6, 7, 8]) 4 2 1 (0, 0) = Inr (2, 2)"
    "timed_loops (list_get [5, 6, 7, 8]) 4 2 1 (0, 0) = Inr (2, 2)"
    "timed_reads ra = nat (loops ra) * nat (accesses_per_loop ra)"
    "timed_reads rl = nat (loops rl) * nat (accesses_per_loop rl)"
    "warm_reads ra = nat (accesses_per_loop ra)"
    "warm_reads rl = nat (accesses_per_loop rl)"
    unfolding c r by auto
  then show ?thesis
    by (intro conjI exI [of _ ra] exI [of _ rl]) (simp_all add: r)
qed

text \<open>
  C9. Whenever a measurer returns, the guard after the timed loop has not printed: the
  accumulator of the contiguous variant is 0 (the buffer holds zeros only), that of the
  indirect variant is an exclusive or of non-negative integers and so non-negative, hence
  never \<open>- 1\<close>. For a valid stride and a buffer that can be built the measurers do return.
\<close>

theorem guard_never_fires:
  "(\<forall>r t'. measure_stride_reads_array env n st m wu t = (Inr r, t') \<longrightarrow>
       s_final r = 0 \<and> \<not> printed r) \<and>
   (\<forall>r t'. measure_stride_reads_list env n st m wu t = (Inr r, t') \<longrightarrow>
       0 \<le> s_final r \<and> s_final r \<noteq> - 1 \<and> \<not> printed r) \<and>
   (1 \<le> st \<and> \<not> alloc_fails env ArrayQ t n \<longrightarrow>
       (\<exists>r. measure_stride_reads_array env n st m wu t = (Inr r, Suc (Suc t)))) \<and>
   (1 \<le> st \<and> \<not> alloc_fails env PyList t n \<longrightarrow>
       (\<exists>r. measure_stride_reads_list env n st m wu t = (Inr r, Suc (Suc t))))"
proof -
  have a: "s_final r = 0 \<and> \<not> printed r"
    if "measure_stride_reads_array env n st m wu t = (Inr r, t')" for r t'
    using that
  proof (rule measure_array_cases)
    fix s reads wr apl lps
    assume tl: "timed_loops (array_get (replicate (nat n) 0)) n st (nat lps) (0, 0) = Inr (s, reads)"
      and r: "r = \<lparr>accesses_per_loop = apl, loops = lps, total_accesses = lps * apl,
          warm_reads = wr, timed_reads = reads, s_final = s, printed = (s = - 1),
          ns_per_access = of_int (clock env (Suc t) - clock env t) / of_int (lps * apl)\<rparr>"
    have "s = 0"
      by (rule timed_loops_inv [of "array_get (replicate (nat n) 0)" "\<lambda>v. v = 0" "\<lambda>s. s = 0",
            OF _ _ _ tl]) (simp_all add: array_get_zero)
    then show ?thesis by (simp add: r)
  qed
  have l: "0 \<le> s_final r \<and> s_final r \<noteq> - 1 \<and> \<not> printed r"
    if "measure_stride_reads_list env n st m wu t = (Inr r, t')" for r t'
    using that
  proof (rule measure_list_cases)
    fix s reads wr apl lps
    assume tl: "timed_loops (list_get (range_up 0 n 1)) n st (nat lps) (0, 0) = Inr (s, reads)"
      and r: "r = \<lparr>accesses_per_loop = apl, loops = lps, total_accesses = lps * apl,
          warm_reads = wr, timed_reads = reads, s_final = s, printed = (s = - 1),
          ns_per_access = of_int (clock env (Suc t) - clock env t) / of_int (lps * apl)\<rparr>"
    have "0 \<le> s"
      by (rule timed_loops_inv [of "list_get (range_up 0 n 1)" "\<lambda>v. 0 \<le> v" "\<lambda>s. 0 \<le> s",
            OF _ _ _ tl]) (simp_all add: list_get_nonneg)
    then show ?thesis by (simp add: r)
  qed
  from a l measure_array_total [of env t n st m wu] measure_list_total [of env t n st m wu]
  show ?thesis by blast
qed

theorem guard_never_fires_witness:
  "(1::int) \<le> 1 \<and>
   \<not> alloc_fails \<lparr>clock = int, alloc_fails = \<lambda>k t n. False\<rparr> ArrayQ 0 16 \<and>
   \<not> alloc_fails \<lparr>clock = int, alloc_fails = \<lambda>k t n. False\<rparr> PyList 0 16 \<and>
   (\<exists>ra rl.
     measure_stride_reads_array \<lparr>clock = int, alloc_fails = \<lambda>k t n. False\<rparr> 16 1 16 True 0
       = (Inr ra, Suc (Suc 0)) \<and>
     measure_stride_reads_list \<lparr>clock = int, alloc_fails = \<lambda>k t n. False\<rparr> 16 1 16 True 0
       = (Inr rl, Suc (Suc 0)) \<and>
     s_final ra = 0 \<and> \<not> printed ra \<and> 0 \<le> s_final rl \<and> \<not> printed rl)"
proof -
  let ?env = "\<lparr>clock = int, alloc_fails = \<lambda>k t n. False\<rparr>"
  note g = guard_never_fires [of ?env 16 1 16 True 0]
  from g obtain ra
    where ra: "measure_stride_reads_array ?env 16 1 16 True 0 = (Inr ra, Suc (Suc 0))" by auto
  from g obtain rl
    where rl: "measure_stride_reads_list ?env 16 1 16 True 0 = (Inr rl, Suc (Suc 0))" by auto
  from g ra have a: "s_final ra = 0 \<and> \<not> printed ra" by blast
  from g rl have l: "0 \<le> s_final rl \<and> \<not> printed rl" by blast
  from ra rl a l show ?thesis
    by (intro conjI exI [of _ ra] exI [of _ rl]) simp_all
qed

section \<open>Facts about the median, the aggregation and the sweep loop\<close>

lemma filter_le_count:
  assumes "sorted ys" "k < length ys" "ys ! k \<le> (m::rat)"
  shows "k + 1 \<le> length (filter (\<lambda>x. x \<le> m) ys)"
proof -
  have "\<forall>x\<in>set (take (k + 1) ys). x \<le> m"
  proof
    fix x assume "x \<in> set (take (k + 1) ys)"
    then obtain i where i: "i < k + 1" "i < length ys" "x = ys ! i"
      by (auto simp: in_set_conv_nth)
    then have "ys ! i \<le> ys ! k" using assms(1,2) by (intro sorted_nth_mono) simp_all
    with i assms(3) show "x \<le> m" by simp
  qed
  then have "filter (\<lambda>x. x \<le> m) (take (k + 1) ys) = take (k + 1) ys" by simp
  moreover have "filter (\<lambda>x. x \<le> m) ys =
      filter (\<lambda>x. x \<le> m) (take (k + 1) ys) @ filter (\<lambda>x. x \<le> m) (drop (k + 1) ys)"
    by (simp only: filter_append [symmetric] append_take_drop_id)
  ultimately have "length (filter (\<lambda>x. x \<le> m) ys) \<ge> length (take (k + 1) ys)" by simp
  with assms(2) show ?thesis by simp
qed

lemma filter_ge_count:
  assumes "sorted ys" "k < length ys" "(m::rat) \<le> ys ! k"
  shows "length ys - k \<le> length (filter (\<lambda>x. m \<le> x) ys)"
proof -
  have "\<forall>x\<in>set (drop k ys). m \<le> x"
  proof
    fix x assume "x \<in> set (drop k ys)"
    then obtain i where i: "i < length ys - k" "x = ys ! (k + i)"
      by (auto simp: in_set_conv_nth)
    then have "ys ! k \<le> ys ! (k + i)" using assms(1,2) by (intro sorted_nth_mono) simp_all
    with i assms(3) show "m \<le> x" by simp
  qed
  then have "filter (\<lambda>x. m \<le> x) (drop k ys) = drop k ys" by simp
  moreover have "filter (\<lambda>x. m \<le> x) ys =
      filter (\<lambda>x. m \<le> x) (take k ys) @ filter (\<lambda>x. m \<le> x) (drop k ys)"
    by (simp only: filter_append [symmetric] append_take_drop_id)
  ultimately have "length (filter (\<lambda>x. m \<le> x) ys) \<ge> length (drop k ys)" by simp
  then show ?thesis by simp
qed

lemma length_filter_sort: "length (filter P (sort xs)) = length (filter P xs)"
  by (simp add: filter_sort)

lemma py_median_is_median:
  assumes "xs \<noteq> []" "mean_between avg"
  shows "\<exists>m. py_median avg xs = Inr m \<and> is_median m xs"
proof -
  define ys where "ys = sort xs"
  define n where "n = length ys"
  have srt: "sorted ys" by (simp add: ys_def)
  have n: "n = length xs" "0 < n" using assms by (simp_all add: n_def ys_def)
  have ne: "length (sort xs) \<noteq> 0" "length xs \<noteq> 0" using assms by simp_all
  show ?thesis
  proof (cases "n mod 2 = 1")
    case True
    define m where "m = ys ! (n div 2)"
    have k: "n div 2 < length ys" using n by (simp add: n_def)
    have pm: "py_median avg xs = Inr m"
      using True ne unfolding py_median_def Let_def m_def n_def ys_def by simp
    have "n div 2 + 1 \<le> length (filter (\<lambda>x. x \<le> m) ys)"
      by (rule filter_le_count [OF srt k]) (simp add: m_def)
    moreover have "length ys - n div 2 \<le> length (filter (\<lambda>x. m \<le> x) ys)"
      by (rule filter_ge_count [OF srt k]) (simp add: m_def)
    ultimately have "is_median m xs"
      using True unfolding is_median_def ys_def length_filter_sort n(1) [symmetric]
      by (simp add: n_def [symmetric] ys_def [symmetric] n(1) [symmetric]) presburger
    with pm show ?thesis by blast
  next
    case False
    define i where "i = n div 2"
    define m where "m = avg (ys ! (i - 1)) (ys ! i)"
    have i: "0 < i" "n = 2 * i" using False n(2) unfolding i_def by presburger+
    have k1: "i - 1 < length ys" and k2: "i < length ys" using i by (simp_all add: n_def [symmetric])
    have pm: "py_median avg xs = Inr m"
      using False ne unfolding py_median_def Let_def m_def i_def n_def ys_def by simp
    have le: "ys ! (i - 1) \<le> ys ! i" using srt k2 by (intro sorted_nth_mono) simp_all
    with assms(2) have bt: "ys ! (i - 1) \<le> m" "m \<le> ys ! i"
      unfolding mean_between_def m_def by blast+
    have "i - 1 + 1 \<le> length (filter (\<lambda>x. x \<le> m) ys)"
      by (rule filter_le_count [OF srt k1]) (rule bt)
    moreover have "length ys - i \<le> length (filter (\<lambda>x. m \<le> x) ys)"
      by (rule filter_ge_count [OF srt k2]) (rule bt)
    ultimately have "is_median m xs"
      using i unfolding is_median_def
      by (simp add: ys_def length_filter_sort n_def [symmetric] n(1) [symmetric])
    with pm show ?thesis by blast
  qed
qed

lemma mean_between_plain: "mean_between (\<lambda>x y. (x + y) / 2)"
  by (simp add: mean_between_def field_simps)

lemma py_median_empty: "py_median avg [] = Inl StatisticsError"
  by (simp add: py_median_def)

lemma py_median_total:
  assumes "xs \<noteq> []"
  shows "\<exists>m. py_median avg xs = Inr m"
proof -
  have "length (sort xs) \<noteq> 0" using assms by simp
  then show ?thesis unfolding py_median_def Let_def by (simp del: length_0_conv length_sort)
qed

lemma measure_array_alloc_fails:
  "alloc_fails env ArrayQ t n \<Longrightarrow>
   measure_stride_reads_array env n st m wu t = (Inl (alloc_error n), t)"
  by (simp add: measure_stride_reads_array_def)

lemma measure_list_alloc_fails:
  "alloc_fails env PyList t n \<Longrightarrow>
   measure_stride_reads_list env n st m wu t = (Inl (alloc_error n), t)"
  by (simp add: measure_stride_reads_list_def)

lemma invoke_log:
  assumes "invoke env k n st m wu w = (res, w')"
  shows "calls w' = calls w @
           [\<lparr>call_kind = k, call_num_elements = n, call_stride_elems = st,
             call_min_accesses = m, call_warmup = wu, call_result = res\<rparr>] \<and>
         rows w' = rows w"
  using assms unfolding invoke_def Let_def by (auto split: prod.splits)

lemma invoke_result:
  assumes "1 \<le> st" "invoke env k n st m wu w = (res, w')"
  shows "if alloc_fails env k (tick w) n then res = Inl (alloc_error n) \<and> tick w' = tick w
         else (\<exists>x. res = Inr x) \<and> tick w' = Suc (Suc (tick w))"
proof (cases "alloc_fails env k (tick w) n")
  case True
  then show ?thesis
    using assms(2) unfolding invoke_def Let_def
    by (cases k) (auto simp: measure_array_alloc_fails measure_list_alloc_fails)
next
  case False
  show ?thesis
  proof (cases k)
    case ArrayQ
    with False measure_array_total [OF _ assms(1), of env "tick w" n m wu]
    obtain r where "measure_stride_reads_array env n st m wu (tick w) = (Inr r, Suc (Suc (tick w)))"
      by auto
    with False ArrayQ assms(2) show ?thesis unfolding invoke_def Let_def by auto
  next
    case PyList
    with False measure_list_total [OF _ assms(1), of env "tick w" n m wu]
    obtain r where "measure_stride_reads_list env n st m wu (tick w) = (Inr r, Suc (Suc (tick w)))"
      by auto
    with False PyList assms(2) show ?thesis unfolding invoke_def Let_def by auto
  qed
qed

lemma collect_samples_log:
  "collect_samples (invoke env k n st m wu) reps samples w = (res, w') \<Longrightarrow>
   \<exists>cs. calls w' = calls w @ cs \<and> rows w' = rows w \<and>
        (\<forall>c\<in>set cs. call_kind c = k \<and> call_num_elements c = n \<and>
                     call_stride_elems c = st \<and> call_min_accesses c = m \<and> call_warmup c = wu) \<and>
        (case res of
           Inr out \<Rightarrow> \<exists>xs. out = samples @ xs \<and> length xs = reps \<and>
                          map call_result cs = map Inr xs
         | Inl e \<Rightarrow> \<exists>c\<in>set cs. call_result c = Inl e)"
proof (induction reps arbitrary: samples w)
  case 0
  then show ?case by auto
next
  case (Suc reps)
  obtain r1 w1 where inv: "invoke env k n st m wu w = (r1, w1)" by (cases "invoke env k n st m wu w")
  note log = invoke_log [OF inv]
  show ?case
  proof (cases r1)
    case (Inl e)
    with Suc.prems inv have "res = Inl e" "w' = w1" by simp_all
    with log Inl show ?thesis by auto
  next
    case (Inr x)
    with Suc.prems inv
    have "collect_samples (invoke env k n st m wu) reps (samples @ [x]) w1 = (res, w')" by simp
    from Suc.IH [OF this] obtain cs where cs: "calls w' = calls w1 @ cs" "rows w' = rows w1"
      "\<forall>c\<in>set cs. call_kind c = k \<and> call_num_elements c = n \<and>
                     call_stride_elems c = st \<and> call_min_accesses c = m \<and> call_warmup c = wu"
      "case res of
           Inr out \<Rightarrow> \<exists>xs. out = (samples @ [x]) @ xs \<and> length xs = reps \<and>
                          map call_result cs = map Inr xs
         | Inl e \<Rightarrow> \<exists>c\<in>set cs. call_result c = Inl e"
      by blast
    let ?c = "\<lparr>call_kind = k, call_num_elements = n, call_stride_elems = st,
             call_min_accesses = m, call_warmup = wu, call_result = r1\<rparr>"
    have "calls w' = calls w @ (?c # cs)" using cs(1) log by simp
    moreover have "rows w' = rows w" using cs(2) log by simp
    moreover have "\<forall>c\<in>set (?c # cs). call_kind c = k \<and> call_num_elements c = n \<and>
                     call_stride_elems c = st \<and> call_min_accesses c = m \<and> call_warmup c = wu"
      using cs(3) by simp
    moreover have "case res of
           Inr out \<Rightarrow> \<exists>xs. out = samples @ xs \<and> length xs = Suc reps \<and>
                          map call_result (?c # cs) = map Inr xs
         | Inl e \<Rightarrow> \<exists>c\<in>set (?c # cs). call_result c = Inl e"
    proof (cases res)
      case (Inl e)
      with cs(4) show ?thesis by auto
    next
      case (Inr out)
      with cs(4) obtain xs where "out = (samples @ [x]) @ xs" "length xs = reps"
        "map call_result cs = map Inr xs" by auto
      then have "out = samples @ (x # xs) \<and> length (x # xs) = Suc reps \<and>
          map call_result (?c # cs) = map Inr (x # xs)" using \<open>r1 = Inr x\<close> by simp
      with Inr show ?thesis by (simp only: sum.case) blast
    qed
    ultimately show ?thesis by blast
  qed
qed

lemma collect_samples_result:
  assumes "1 \<le> st"
  shows "collect_samples (invoke env k n st m wu) reps samples w = (res, w') \<Longrightarrow>
     ((res = Inl (alloc_error n) \<and> (\<exists>t. alloc_fails env k t n)) \<or> (\<exists>out. res = Inr out)) \<and>
     (0 < reps \<and> alloc_fails env k (tick w) n \<longrightarrow> res = Inl (alloc_error n))"
proof (induction reps arbitrary: samples w)
  case 0
  then show ?case by auto
next
  case (Suc reps)
  obtain r1 w1 where inv: "invoke env k n st m wu w = (r1, w1)" by (cases "invoke env k n st m wu w")
  note r = invoke_result [OF assms inv]
  show ?case
  proof (cases "alloc_fails env k (tick w) n")
    case True
    with r have "r1 = Inl (alloc_error n)" by simp
    with Suc.prems inv have "res = Inl (alloc_error n)" by simp
    with True show ?thesis by auto
  next
    case False
    with r obtain x where x: "r1 = Inr x" by auto
    with Suc.prems inv
    have "collect_samples (invoke env k n st m wu) reps (samples @ [x]) w1 = (res, w')" by simp
    from Suc.IH [OF this] False show ?thesis by auto
  qed
qed

lemma new_calls_append: "calls w' = calls w @ cs \<Longrightarrow> new_calls w w' = cs"
  by (simp add: new_calls_def)

lemma new_rows_append: "rows w' = rows w @ rs \<Longrightarrow> new_rows w w' = rs"
  by (simp add: new_rows_def)

lemma measure_kind_log:
  assumes "measure_kind avg env k n st m wu reps w = (res, w')"
  shows "\<exists>cs. calls w' = calls w @ cs \<and> rows w' = rows w \<and>
        (\<forall>c\<in>set cs. call_kind c = k \<and> call_num_elements c = n \<and>
                     call_stride_elems c = st \<and> call_min_accesses c = m \<and> call_warmup c = wu)"
proof -
  obtain r0 w0 where c: "collect_samples (invoke env k n st m wu) (nat reps) [] w = (r0, w0)"
    by (cases "collect_samples (invoke env k n st m wu) (nat reps) [] w")
  from assms c have "w' = w0"
    unfolding measure_kind_def by (auto split: sum.splits if_splits)
  with collect_samples_log [OF c] show ?thesis by blast
qed

lemma measure_kind_spec:
  assumes "1 \<le> st" "1 \<le> reps" "\<forall>t. alloc_fails env k t n \<longrightarrow> n < 2 ^ 63"
  shows "\<exists>v w' cs. measure_kind avg env k n st m wu reps w = (Inr v, w') \<and>
     calls w' = calls w @ cs \<and> rows w' = rows w \<and> cs \<noteq> [] \<and>
     (\<forall>c\<in>set cs. call_kind c = k \<and> call_num_elements c = n \<and>
                  call_stride_elems c = st \<and> call_min_accesses c = m \<and> call_warmup c = wu) \<and>
     aggregated avg reps cs v \<and>
     ((\<forall>t. \<not> alloc_fails env k t n) \<longrightarrow> (\<forall>c\<in>set cs. call_result c \<noteq> Inl MemoryError)) \<and>
     (alloc_fails env k (tick w) n \<longrightarrow> v = NaN)"
proof -
  obtain r0 w0 where c: "collect_samples (invoke env k n st m wu) (nat reps) [] w = (r0, w0)"
    by (cases "collect_samples (invoke env k n st m wu) (nat reps) [] w")
  from collect_samples_log [OF c] obtain cs where cs: "calls w0 = calls w @ cs" "rows w0 = rows w"
    "\<forall>c\<in>set cs. call_kind c = k \<and> call_num_elements c = n \<and>
                     call_stride_elems c = st \<and> call_min_accesses c = m \<and> call_warmup c = wu"
    "case r0 of
           Inr out \<Rightarrow> \<exists>xs. out = [] @ xs \<and> length xs = nat reps \<and>
                          map call_result cs = map Inr xs
         | Inl e \<Rightarrow> \<exists>c\<in>set cs. call_result c = Inl e"
    by blast
  note res = collect_samples_result [OF assms(1) c]
  from assms(2) have reps: "0 < nat reps" by simp
  show ?thesis
  proof (cases r0)
    case (Inl e)
    with res obtain t where "e = alloc_error n" "alloc_fails env k t n" by auto
    with assms(3) have e: "e = MemoryError" by (auto simp: alloc_error_def)
    with Inl c have mk: "measure_kind avg env k n st m wu reps w = (Inr NaN, w0)"
      by (simp add: measure_kind_def)
    from cs(4) Inl e have ex: "\<exists>c\<in>set cs. call_result c = Inl MemoryError" by simp
    then have ne: "cs \<noteq> []" by auto
    from ex have ag: "aggregated avg reps cs NaN" by (simp add: aggregated_def)
    from res Inl have "\<not> (\<forall>t. \<not> alloc_fails env k t n)" by auto
    with mk cs(1,2,3) ne ag show ?thesis by blast
  next
    case (Inr out)
    with cs(4) have out: "length out = nat reps" "map call_result cs = map Inr out" by auto
    with reps have "out \<noteq> []" by auto
    from py_median_total [OF this] obtain med
      where med: "py_median avg out = Inr med" by blast
    with Inr c have mk: "measure_kind avg env k n st m wu reps w = (Inr (Fin med), w0)"
      by (simp add: measure_kind_def)
    have noerr: "\<forall>c\<in>set cs. call_result c \<noteq> Inl MemoryError"
    proof
      fix c assume "c \<in> set cs"
      then have "call_result c \<in> set (map call_result cs)" by simp
      then show "call_result c \<noteq> Inl MemoryError" unfolding out(2) by auto
    qed
    have "length cs = length out" using out(2) by (metis length_map)
    with \<open>out \<noteq> []\<close> have ne: "cs \<noteq> []" by auto
    from noerr out med have ag: "aggregated avg reps cs (Fin med)"
      unfolding aggregated_def by auto
    from res Inr reps have "\<not> alloc_fails env k (tick w) n" by auto
    with mk cs(1,2,3) ne ag noerr show ?thesis by blast
  qed
qed

lemma skip_test: "max 1 (x div 8) < 8 \<longleftrightarrow> x div 8 < (8::int)"
  by auto

lemma process_size_skip:
  "size_bytes div 8 < 8 \<Longrightarrow> process_size avg env a st size_bytes w = (Inr (), w)"
  by (simp add: process_size_def Let_def)

lemma kind_block:
  assumes "1 \<le> st" "1 \<le> reps" "\<forall>t. alloc_fails env k t n \<longrightarrow> n < 2 ^ 63"
  shows "\<exists>r w1 cs.
     (if en then (case measure_kind avg env k n st m wu reps w of
                    (Inl e, w') \<Rightarrow> (Inl e, w')
                  | (Inr v, w') \<Rightarrow> (Inr (Some v), w'))
      else (Inr None, w)) = (Inr r, w1) \<and>
     calls w1 = calls w @ cs \<and> rows w1 = rows w \<and>
     (\<forall>c\<in>set cs. call_kind c = k \<and> call_num_elements c = n \<and>
                  call_stride_elems c = st \<and> call_min_accesses c = m \<and> call_warmup c = wu) \<and>
     (if en
      then cs \<noteq> [] \<and>
           (\<exists>v. r = Some v \<and> aggregated avg reps cs v \<and>
                ((\<forall>t. alloc_fails env k t n) \<longrightarrow> v = NaN)) \<and>
           ((\<forall>t. \<not> alloc_fails env k t n) \<longrightarrow> (\<forall>c\<in>set cs. call_result c \<noteq> Inl MemoryError))
      else cs = [] \<and> r = None)"
proof (cases en)
  case False
  then show ?thesis by simp
next
  case True
  from measure_kind_spec [OF assms, where avg = avg and m = m and wu = wu and w = w] obtain v w' cs where
    mk: "measure_kind avg env k n st m wu reps w = (Inr v, w')"
    and p: "calls w' = calls w @ cs" "rows w' = rows w" "cs \<noteq> []"
      "\<forall>c\<in>set cs. call_kind c = k \<and> call_num_elements c = n \<and>
                  call_stride_elems c = st \<and> call_min_accesses c = m \<and> call_warmup c = wu"
      "aggregated avg reps cs v"
      "(\<forall>t. \<not> alloc_fails env k t n) \<longrightarrow> (\<forall>c\<in>set cs. call_result c \<noteq> Inl MemoryError)"
      "alloc_fails env k (tick w) n \<longrightarrow> v = NaN"
    by blast
  have blk: "(if en then (case measure_kind avg env k n st m wu reps w of
                    (Inl e, w') \<Rightarrow> (Inl e, w')
                  | (Inr v, w') \<Rightarrow> (Inr (Some v), w'))
      else (Inr None, w)) = (Inr (Some v), w')"
    using True mk by simp
  from p(7) have "(\<forall>t. alloc_fails env k t n) \<longrightarrow> v = NaN" by blast
  with p(3,5,6) True
  have "if en
      then cs \<noteq> [] \<and>
           (\<exists>v'. Some v = Some v' \<and> aggregated avg reps cs v' \<and>
                ((\<forall>t. alloc_fails env k t n) \<longrightarrow> v' = NaN)) \<and>
           ((\<forall>t. \<not> alloc_fails env k t n) \<longrightarrow> (\<forall>c\<in>set cs. call_result c \<noteq> Inl MemoryError))
      else cs = [] \<and> Some v = None"
    by simp
  with blk p(1,2,4) show ?thesis by blast
qed

lemma process_size_unfold:
  assumes "\<not> sz div 8 < 8"
  shows "process_size avg env a st sz w =
     (case (if use_array a
            then (case measure_kind avg env ArrayQ (sz div 8) st (min_accesses a) (warmup a) (repeats a) w of
                    (Inl e, w') \<Rightarrow> (Inl e, w')
                  | (Inr v, w') \<Rightarrow> (Inr (Some v), w'))
            else (Inr None, w)) of
        (Inl e, w1) \<Rightarrow> (Inl e, w1)
      | (Inr ns_array, w1) \<Rightarrow>
          (case (if use_list a
                 then (case measure_kind avg env PyList (sz div 8) st (min_accesses a div 10)
                              (warmup a) (repeats a) w1 of
                         (Inl e, w') \<Rightarrow> (Inl e, w')
                       | (Inr v, w') \<Rightarrow> (Inr (Some v), w'))
                 else (Inr None, w1)) of
             (Inl e, w2) \<Rightarrow> (Inl e, w2)
           | (Inr ns_list, w2) \<Rightarrow>
               (Inr (), w2\<lparr>rows := rows w2 @
                         [\<lparr>row_size_bytes = sz, row_ns_array = ns_array,
                           row_ns_list = ns_list\<rparr>]\<rparr>)))"
proof -
  from assms have "max 1 (sz div 8) = sz div 8" "\<not> max 1 (sz div 8) < 8" by simp_all
  then show ?thesis unfolding process_size_def Let_def by (simp only: if_False)
qed

lemma process_size_spec:
  assumes "1 \<le> st" "1 \<le> repeats a" "\<not> sz div 8 < 8"
    and "\<forall>k t. alloc_fails env k t (sz div 8) \<longrightarrow> sz div 8 < 2 ^ 63"
  shows "\<exists>w' ra rl ca cl. process_size avg env a st sz w = (Inr (), w') \<and>
     rows w' = rows w @ [\<lparr>row_size_bytes = sz, row_ns_array = ra, row_ns_list = rl\<rparr>] \<and>
     calls w' = calls w @ ca @ cl \<and>
     (\<forall>c\<in>set ca. call_kind c = ArrayQ \<and> call_num_elements c = sz div 8 \<and>
                  call_stride_elems c = st \<and> call_min_accesses c = min_accesses a \<and>
                  call_warmup c = warmup a) \<and>
     (\<forall>c\<in>set cl. call_kind c = PyList \<and> call_num_elements c = sz div 8 \<and>
                  call_stride_elems c = st \<and> call_min_accesses c = min_accesses a div 10 \<and>
                  call_warmup c = warmup a) \<and>
     (if use_array a
      then ca \<noteq> [] \<and>
           (\<exists>v. ra = Some v \<and> aggregated avg (repeats a) ca v \<and>
                ((\<forall>t. alloc_fails env ArrayQ t (sz div 8)) \<longrightarrow> v = NaN)) \<and>
           ((\<forall>t. \<not> alloc_fails env ArrayQ t (sz div 8)) \<longrightarrow>
              (\<forall>c\<in>set ca. call_result c \<noteq> Inl MemoryError))
      else ca = [] \<and> ra = None) \<and>
     (if use_list a
      then cl \<noteq> [] \<and>
           (\<exists>v. rl = Some v \<and> aggregated avg (repeats a) cl v \<and>
                ((\<forall>t. alloc_fails env PyList t (sz div 8)) \<longrightarrow> v = NaN)) \<and>
           ((\<forall>t. \<not> alloc_fails env PyList t (sz div 8)) \<longrightarrow>
              (\<forall>c\<in>set cl. call_result c \<noteq> Inl MemoryError))
      else cl = [] \<and> rl = None)"
proof -
  from assms(4) have fa: "\<forall>t. alloc_fails env ArrayQ t (sz div 8) \<longrightarrow> sz div 8 < 2 ^ 63"
    and fl: "\<forall>t. alloc_fails env PyList t (sz div 8) \<longrightarrow> sz div 8 < 2 ^ 63" by blast+
  from kind_block [OF assms(1,2) fa, where en = "use_array a" and avg = avg
      and m = "min_accesses a" and wu = "warmup a" and w = w]
  obtain ra w1 ca where
    ba: "(if use_array a
            then (case measure_kind avg env ArrayQ (sz div 8) st (min_accesses a) (warmup a) (repeats a) w of
                    (Inl e, w') \<Rightarrow> (Inl e, w')
                  | (Inr v, w') \<Rightarrow> (Inr (Some v), w'))
            else (Inr None, w)) = (Inr ra, w1)"
    and pa: "calls w1 = calls w @ ca" "rows w1 = rows w"
      "\<forall>c\<in>set ca. call_kind c = ArrayQ \<and> call_num_elements c = sz div 8 \<and>
                  call_stride_elems c = st \<and> call_min_accesses c = min_accesses a \<and>
                  call_warmup c = warmup a"
      "if use_array a
      then ca \<noteq> [] \<and>
           (\<exists>v. ra = Some v \<and> aggregated avg (repeats a) ca v \<and>
                ((\<forall>t. alloc_fails env ArrayQ t (sz div 8)) \<longrightarrow> v = NaN)) \<and>
           ((\<forall>t. \<not> alloc_fails env ArrayQ t (sz div 8)) \<longrightarrow>
              (\<forall>c\<in>set ca. call_result c \<noteq> Inl MemoryError))
      else ca = [] \<and> ra = None"
    by blast
  from kind_block [OF assms(1,2) fl, where en = "use_list a" and avg = avg
      and m = "min_accesses a div 10" and wu = "warmup a" and w = w1]
  obtain rl w2 cl where
    bl: "(if use_list a
                 then (case measure_kind avg env PyList (sz div 8) st (min_accesses a div 10)
                              (warmup a) (repeats a) w1 of
                         (Inl e, w') \<Rightarrow> (Inl e, w')
                       | (Inr v, w') \<Rightarrow> (Inr (Some v), w'))
                 else (Inr None, w1)) = (Inr rl, w2)"
    and pl: "calls w2 = calls w1 @ cl" "rows w2 = rows w1"
      "\<forall>c\<in>set cl. call_kind c = PyList \<and> call_num_elements c = sz div 8 \<and>
                  call_stride_elems c = st \<and> call_min_accesses c = min_accesses a div 10 \<and>
                  call_warmup c = warmup a"
      "if use_list a
      then cl \<noteq> [] \<and>
           (\<exists>v. rl = Some v \<and> aggregated avg (repeats a) cl v \<and>
                ((\<forall>t. alloc_fails env PyList t (sz div 8)) \<longrightarrow> v = NaN)) \<and>
           ((\<forall>t. \<not> alloc_fails env PyList t (sz div 8)) \<longrightarrow>
              (\<forall>c\<in>set cl. call_result c \<noteq> Inl MemoryError))
      else cl = [] \<and> rl = None"
    by blast
  let ?w' = "w2\<lparr>rows := rows w2 @
                         [\<lparr>row_size_bytes = sz, row_ns_array = ra, row_ns_list = rl\<rparr>]\<rparr>"
  have ps: "process_size avg env a st sz w = (Inr (), ?w')"
    unfolding process_size_unfold [OF assms(3)] ba prod.case sum.case bl ..
  have r: "rows ?w' = rows w @ [\<lparr>row_size_bytes = sz, row_ns_array = ra, row_ns_list = rl\<rparr>]"
    using pa(2) pl(2) by simp
  have c: "calls ?w' = calls w @ ca @ cl" using pa(1) pl(1) by simp
  from ps r c pa(3,4) pl(3,4) show ?thesis by blast
qed

lemma kind_block_log:
  assumes "(if en then (case measure_kind avg env k n st m wu reps w of
                    (Inl e, w') \<Rightarrow> (Inl e, w')
                  | (Inr v, w') \<Rightarrow> (Inr (Some v), w'))
      else (Inr None, w)) = (r, w1)"
  shows "\<exists>cs. calls w1 = calls w @ cs \<and> rows w1 = rows w \<and>
        (\<forall>c\<in>set cs. call_kind c = k \<and> call_min_accesses c = m)"
proof (cases en)
  case False
  with assms show ?thesis by simp
next
  case True
  obtain r0 w0 where mk: "measure_kind avg env k n st m wu reps w = (r0, w0)"
    by (cases "measure_kind avg env k n st m wu reps w")
  with assms True have "w1 = w0" by (cases r0) simp_all
  with measure_kind_log [OF mk] show ?thesis by blast
qed

lemma process_size_log:
  assumes "process_size avg env a st sz w = (res, w')"
  shows "\<exists>cs rs. calls w' = calls w @ cs \<and> rows w' = rows w @ rs \<and>
     (\<forall>c\<in>set cs. (call_kind c = ArrayQ \<longrightarrow> call_min_accesses c = min_accesses a) \<and>
                  (call_kind c = PyList \<longrightarrow> call_min_accesses c = min_accesses a div 10)) \<and>
     (res = Inr () \<longrightarrow> map row_size_bytes rs = (if sz div 8 < 8 then [] else [sz]))"
proof (cases "sz div 8 < 8")
  case True
  with assms show ?thesis by (simp add: process_size_skip)
next
  case False
  let ?A = "if use_array a
            then (case measure_kind avg env ArrayQ (sz div 8) st (min_accesses a) (warmup a) (repeats a) w of
                    (Inl e, w') \<Rightarrow> (Inl e, w')
                  | (Inr v, w') \<Rightarrow> (Inr (Some v), w'))
            else (Inr None, w)"
  obtain ra w1 where ba: "?A = (ra, w1)" by (cases ?A)
  from kind_block_log [OF ba] obtain ca where
    ca: "calls w1 = calls w @ ca" "rows w1 = rows w"
      "\<forall>c\<in>set ca. call_kind c = ArrayQ \<and> call_min_accesses c = min_accesses a" by blast
  show ?thesis
  proof (cases ra)
    case (Inl e)
    with assms have "w' = w1"
      unfolding process_size_unfold [OF False] ba by simp
    with ca Inl assms show ?thesis
      unfolding process_size_unfold [OF False] ba by auto
  next
    case (Inr ns_array)
    let ?L = "if use_list a
                 then (case measure_kind avg env PyList (sz div 8) st (min_accesses a div 10)
                              (warmup a) (repeats a) w1 of
                         (Inl e, w') \<Rightarrow> (Inl e, w')
                       | (Inr v, w') \<Rightarrow> (Inr (Some v), w'))
                 else (Inr None, w1)"
    obtain rl w2 where bl: "?L = (rl, w2)" by (cases ?L)
    from kind_block_log [OF bl] obtain cl where
      cl: "calls w2 = calls w1 @ cl" "rows w2 = rows w1"
        "\<forall>c\<in>set cl. call_kind c = PyList \<and> call_min_accesses c = min_accesses a div 10" by blast
    have eq: "process_size avg env a st sz w =
        (case rl of Inl e \<Rightarrow> (Inl e, w2)
         | Inr ns_list \<Rightarrow> (Inr (), w2\<lparr>rows := rows w2 @
                         [\<lparr>row_size_bytes = sz, row_ns_array = ns_array,
                           row_ns_list = ns_list\<rparr>]\<rparr>))"
      unfolding process_size_unfold [OF False] ba Inr prod.case sum.case bl ..
    have cs: "\<forall>c\<in>set (ca @ cl).
                  (call_kind c = ArrayQ \<longrightarrow> call_min_accesses c = min_accesses a) \<and>
                  (call_kind c = PyList \<longrightarrow> call_min_accesses c = min_accesses a div 10)"
      using ca(3) cl(3) by auto
    show ?thesis
    proof (cases rl)
      case (Inl e)
      with assms eq have "res = Inl e" "w' = w2" by simp_all
      then have "calls w' = calls w @ (ca @ cl)" "rows w' = rows w @ []" "res \<noteq> Inr ()"
        using ca cl by simp_all
      with cs show ?thesis by blast
    next
      case (Inr ns_list)
      with assms eq have w': "w' = w2\<lparr>rows := rows w2 @
                         [\<lparr>row_size_bytes = sz, row_ns_array = ns_array,
                           row_ns_list = ns_list\<rparr>]\<rparr>" by simp
      have "calls w' = calls w @ (ca @ cl)"
        "rows w' = rows w @ [\<lparr>row_size_bytes = sz, row_ns_array = ns_array,
                           row_ns_list = ns_list\<rparr>]"
        using ca cl by (simp_all add: w')
      moreover have "map row_size_bytes [\<lparr>row_size_bytes = sz, row_ns_array = ns_array,
                           row_ns_list = ns_list\<rparr>] = (if sz div 8 < 8 then [] else [sz])"
        using False by simp
      ultimately show ?thesis using cs by blast
    qed
  qed
qed

lemma sweep_log:
  "sweep avg env a st sizes w = (res, w') \<Longrightarrow>
   \<exists>cs rs. calls w' = calls w @ cs \<and> rows w' = rows w @ rs \<and>
     (\<forall>c\<in>set cs. (call_kind c = ArrayQ \<longrightarrow> call_min_accesses c = min_accesses a) \<and>
                  (call_kind c = PyList \<longrightarrow> call_min_accesses c = min_accesses a div 10)) \<and>
     (res = Inr () \<longrightarrow> map row_size_bytes rs = filter (\<lambda>s. \<not> s div 8 < 8) sizes)"
proof (induction sizes arbitrary: w)
  case Nil
  then show ?case by simp
next
  case (Cons sz sizes)
  obtain r1 w1 where ps: "process_size avg env a st sz w = (r1, w1)"
    by (cases "process_size avg env a st sz w")
  from process_size_log [OF ps] obtain cs1 rs1 where
    p1: "calls w1 = calls w @ cs1" "rows w1 = rows w @ rs1"
      "\<forall>c\<in>set cs1. (call_kind c = ArrayQ \<longrightarrow> call_min_accesses c = min_accesses a) \<and>
                  (call_kind c = PyList \<longrightarrow> call_min_accesses c = min_accesses a div 10)"
      "r1 = Inr () \<longrightarrow> map row_size_bytes rs1 = (if sz div 8 < 8 then [] else [sz])"
    by blast
  show ?case
  proof (cases r1)
    case (Inl e)
    with Cons.prems ps have "res = Inl e" "w' = w1" by simp_all
    with p1 show ?thesis by blast
  next
    case (Inr u)
    with Cons.prems ps have "sweep avg env a st sizes w1 = (res, w')" by simp
    from Cons.IH [OF this] obtain cs2 rs2 where
      p2: "calls w' = calls w1 @ cs2" "rows w' = rows w1 @ rs2"
        "\<forall>c\<in>set cs2. (call_kind c = ArrayQ \<longrightarrow> call_min_accesses c = min_accesses a) \<and>
                  (call_kind c = PyList \<longrightarrow> call_min_accesses c = min_accesses a div 10)"
        "res = Inr () \<longrightarrow> map row_size_bytes rs2 = filter (\<lambda>s. \<not> s div 8 < 8) sizes"
      by blast
    have "calls w' = calls w @ (cs1 @ cs2)" "rows w' = rows w @ (rs1 @ rs2)"
      using p1(1,2) p2(1,2) by simp_all
    moreover have "\<forall>c\<in>set (cs1 @ cs2).
                  (call_kind c = ArrayQ \<longrightarrow> call_min_accesses c = min_accesses a) \<and>
                  (call_kind c = PyList \<longrightarrow> call_min_accesses c = min_accesses a div 10)"
      using p1(3) p2(3) by auto
    moreover have "res = Inr () \<longrightarrow>
        map row_size_bytes (rs1 @ rs2) = filter (\<lambda>s. \<not> s div 8 < 8) (sz # sizes)"
      using p1(4) p2(4) Inr by simp
    ultimately show ?thesis by blast
  qed
qed

lemma sweep_total:
  assumes "1 \<le> st" "1 \<le> repeats a"
  shows "\<forall>s\<in>set sizes. s div 8 < 2 ^ 63 \<Longrightarrow> \<exists>w'. sweep avg env a st sizes w = (Inr (), w')"
proof (induction sizes arbitrary: w)
  case Nil
  then show ?case by simp
next
  case (Cons sz sizes)
  have "\<exists>w1. process_size avg env a st sz w = (Inr (), w1)"
  proof (cases "sz div 8 < 8")
    case True
    then show ?thesis by (simp add: process_size_skip)
  next
    case False
    from Cons.prems have "\<forall>k t. alloc_fails env k t (sz div 8) \<longrightarrow> sz div 8 < 2 ^ 63" by simp
    from process_size_spec [OF assms False this, where avg = avg and w = w]
    show ?thesis by blast
  qed
  then obtain w1 where "process_size avg env a st sz w = (Inr (), w1)" by blast
  with Cons.IH [of w1] Cons.prems show ?case by simp
qed

lemma sweep_append:
  "sweep avg env a st (xs @ ys) w =
     (case sweep avg env a st xs w of
        (Inl e, w') \<Rightarrow> (Inl e, w')
      | (Inr u, w') \<Rightarrow> sweep avg env a st ys w')"
  by (induction xs arbitrary: w) (auto split: prod.splits sum.splits)

lemma generate_sizes_total: "\<exists>sizes. generate_sizes up kb mx = Inr sizes"
  by (simp add: generate_sizes_eq)

lemma main_log:
  assumes "main up avg env a w = (res, w')"
  shows "\<exists>cs. calls w' = calls w @ cs \<and>
     (\<forall>c\<in>set cs. (call_kind c = ArrayQ \<longrightarrow> call_min_accesses c = min_accesses a) \<and>
                  (call_kind c = PyList \<longrightarrow> call_min_accesses c = min_accesses a div 10))"
proof -
  define a' where "a' = (if \<not> use_list a \<and> \<not> use_array a
               then a\<lparr>use_list := True, use_array := True\<rparr> else a)"
  define mx where "mx = (case max_gb a' of
                         Some g \<Rightarrow> trunc (g * 1024 * 1024 * 1024)
                       | None \<Rightarrow> max_mb a' * 1024 * 1024)"
  have ma: "min_accesses a' = min_accesses a" by (simp add: a'_def)
  obtain sizes where gs: "generate_sizes up (min_kb a') mx = Inr sizes"
    using generate_sizes_total by blast
  obtain r1 w1 where sw: "sweep avg env a' (max 1 (stride_bytes a' div 8)) sizes w = (r1, w1)"
    by (cases "sweep avg env a' (max 1 (stride_bytes a' div 8)) sizes w")
  have "main up avg env a w = (case r1 of Inl e \<Rightarrow> (Inl e, w1) | Inr u \<Rightarrow> (Inr 0, w1))"
    unfolding main_def Let_def a'_def [symmetric] mx_def [symmetric] gs sum.case sw prod.case
    by (cases r1) simp_all
  with assms have "w' = w1" by (cases r1) simp_all
  with sweep_log [OF sw] ma show ?thesis by auto
qed

lemma filter_kind_split:
  assumes "\<forall>c\<in>set ca. call_kind c = ArrayQ" "\<forall>c\<in>set cl. call_kind c = PyList"
  shows "filter (\<lambda>c. call_kind c = ArrayQ) (ca @ cl) = ca"
    and "filter (\<lambda>c. call_kind c = PyList) (ca @ cl) = cl"
  using assms by (auto simp: filter_empty_conv filter_id_conv)

lemma aggregated_ok:
  assumes "aggregated avg reps cs v" "\<forall>c\<in>set cs. call_result c \<noteq> Inl MemoryError"
  shows "\<exists>samples med. map call_result cs = map Inr samples \<and> length samples = nat reps \<and>
           py_median avg samples = Inr med \<and> v = Fin med"
  using assms unfolding aggregated_def by (auto split: if_splits)

lemma aggregated_failed:
  assumes "aggregated avg reps cs v" "c \<in> set cs" "call_result c = Inl MemoryError"
  shows "v = NaN"
  using assms unfolding aggregated_def by (auto split: if_splits)

lemma overflow_not_caught:
  assumes "1 \<le> st" "1 \<le> reps" "2 ^ 63 \<le> n" "alloc_fails env k (tick w) n"
  shows "\<exists>w'. measure_kind avg env k n st m wu reps w = (Inl OverflowError, w')"
proof -
  obtain r0 w0 where c: "collect_samples (invoke env k n st m wu) (nat reps) [] w = (r0, w0)"
    by (cases "collect_samples (invoke env k n st m wu) (nat reps) [] w")
  from collect_samples_result [OF assms(1) c] assms(2,4) have "r0 = Inl (alloc_error n)" by simp
  with assms(3) have "r0 = Inl OverflowError" by (simp add: alloc_error_def)
  with c show ?thesis by (simp add: measure_kind_def)
qed

lemma process_size_measured:
  assumes "\<not> sz div 8 < 8" "1 \<le> st" "1 \<le> repeats a" "sz div 8 < 2 ^ 63"
  shows "\<exists>w' ra rl. process_size avg env a st sz w = (Inr (), w') \<and>
         new_rows w w' = [\<lparr>row_size_bytes = sz, row_ns_array = ra, row_ns_list = rl\<rparr>] \<and>
         (use_array a \<longrightarrow> ra \<noteq> None \<and>
            (\<exists>c\<in>set (new_calls w w'). call_kind c = ArrayQ \<and> call_num_elements c = sz div 8)) \<and>
         (use_list a \<longrightarrow> rl \<noteq> None \<and>
            (\<exists>c\<in>set (new_calls w w'). call_kind c = PyList \<and> call_num_elements c = sz div 8))"
proof -
  from assms have h': "1 \<le> st" "1 \<le> repeats a" "\<not> sz div 8 < 8"
    "\<forall>k t. alloc_fails env k t (sz div 8) \<longrightarrow> sz div 8 < 2 ^ 63" by simp_all
  from process_size_spec [OF h', where avg = avg and w = w] obtain w' ra rl ca cl where
    ps: "process_size avg env a st sz w = (Inr (), w')"
    and rw: "rows w' = rows w @ [\<lparr>row_size_bytes = sz, row_ns_array = ra, row_ns_list = rl\<rparr>]"
    and cw: "calls w' = calls w @ ca @ cl"
    and ka': "\<forall>c\<in>set ca. call_kind c = ArrayQ \<and> call_num_elements c = sz div 8 \<and>
                call_stride_elems c = st \<and> call_min_accesses c = min_accesses a \<and>
                call_warmup c = warmup a"
    and kl': "\<forall>c\<in>set cl. call_kind c = PyList \<and> call_num_elements c = sz div 8 \<and>
                call_stride_elems c = st \<and> call_min_accesses c = min_accesses a div 10 \<and>
                call_warmup c = warmup a"
    and oa': "if use_array a
    then ca \<noteq> [] \<and>
         (\<exists>v. ra = Some v \<and> aggregated avg (repeats a) ca v \<and>
              ((\<forall>t. alloc_fails env ArrayQ t (sz div 8)) \<longrightarrow> v = NaN)) \<and>
         ((\<forall>t. \<not> alloc_fails env ArrayQ t (sz div 8)) \<longrightarrow>
            (\<forall>c\<in>set ca. call_result c \<noteq> Inl MemoryError))
    else ca = [] \<and> ra = None"
    and ol': "if use_list a
    then cl \<noteq> [] \<and>
         (\<exists>v. rl = Some v \<and> aggregated avg (repeats a) cl v \<and>
              ((\<forall>t. alloc_fails env PyList t (sz div 8)) \<longrightarrow> v = NaN)) \<and>
         ((\<forall>t. \<not> alloc_fails env PyList t (sz div 8)) \<longrightarrow>
            (\<forall>c\<in>set cl. call_result c \<noteq> Inl MemoryError))
    else cl = [] \<and> rl = None"
    by blast
  from ka' have ka: "\<forall>c\<in>set ca. call_kind c = ArrayQ \<and> call_num_elements c = sz div 8"
    by blast
  from kl' have kl: "\<forall>c\<in>set cl. call_kind c = PyList \<and> call_num_elements c = sz div 8"
    by blast
  from oa' have oa: "use_array a \<longrightarrow> ca \<noteq> [] \<and> ra \<noteq> None"
    by (cases "use_array a") auto
  from ol' have ol: "use_list a \<longrightarrow> cl \<noteq> [] \<and> rl \<noteq> None"
    by (cases "use_list a") auto
  have nc: "new_calls w w' = ca @ cl" using cw by (rule new_calls_append)
  have nr: "new_rows w w' = [\<lparr>row_size_bytes = sz, row_ns_array = ra, row_ns_list = rl\<rparr>]"
    using rw by (rule new_rows_append)
  have a: "ra \<noteq> None \<and> (\<exists>c\<in>set (ca @ cl). call_kind c = ArrayQ \<and> call_num_elements c = sz div 8)"
    if "use_array a"
  proof -
    from oa that obtain c where "c \<in> set ca" by (cases ca) auto
    with ka oa that show ?thesis by auto
  qed
  have l: "rl \<noteq> None \<and> (\<exists>c\<in>set (ca @ cl). call_kind c = PyList \<and> call_num_elements c = sz div 8)"
    if "use_list a"
  proof -
    from ol that obtain c where "c \<in> set cl" by (cases cl) auto
    with kl ol that show ?thesis by auto
  qed
  from ps nr a [folded nc] l [folded nc]
  show ?thesis
    by blast
qed

lemma main_one_size:
  assumes "\<not> (use_list a \<or> use_array a) = False" "max_gb a = None" "max_mb a = 0" "min_kb a = 1"
  shows "main up avg env a w =
     (case process_size avg env a (max 1 (stride_bytes a div 8)) 1024 w of
        (Inl e, w') \<Rightarrow> (Inl e, w')
      | (Inr u, w') \<Rightarrow> (Inr 0, w'))"
proof -
  have gs: "generate_sizes up 1 0 = Inr [1024]"
    by (simp add: generate_sizes_def int_log2_def trunc_log2_def py_range_def floor_log2.simps
        range_up.simps shl_def)
  from assms(1) have a: "(if \<not> use_list a \<and> \<not> use_array a
      then a\<lparr>use_list := True, use_array := True\<rparr> else a) = a" by auto
  show ?thesis
    unfolding main_def Let_def a
    by (simp add: assms(2-) gs split: prod.splits sum.splits)
qed

section \<open>Claims about the sweep of \<^verbatim>\<open>main\<close>\<close>

text \<open>
  C5. Take a size that is not skipped, a stride of at least one element, at least one
  repeat, and an environment in which every buffer of that size can be built. Then the
  body of the sweep loop ends without an exception and prints one row for the size. For
  each enabled buffer kind, the calls of the measurer of that kind made for the size
  returned \<open>repeats\<close> samples, and the value printed for the kind is
  \<^verbatim>\<open>statistics.median\<close> of exactly these samples. That value is a median of the samples
  in the statistical sense, given that the rounded mean of two samples lies between them
  (for an odd number of repeats it is one of the samples and the mean plays no part).
\<close>

theorem reported_value_is_median:
  assumes "1 \<le> st" "1 \<le> repeats a" "\<not> sz div 8 < 8"
    and "\<forall>k t. \<not> alloc_fails env k t (sz div 8)" "mean_between avg"
  shows "\<exists>w' ra rl. process_size avg env a st sz w = (Inr (), w') \<and>
     new_rows w w' = [\<lparr>row_size_bytes = sz, row_ns_array = ra, row_ns_list = rl\<rparr>] \<and>
     (use_array a \<longrightarrow>
        (\<exists>samples med.
           map call_result (filter (\<lambda>c. call_kind c = ArrayQ) (new_calls w w')) = map Inr samples \<and>
           length samples = nat (repeats a) \<and>
           py_median avg samples = Inr med \<and> is_median med samples \<and> ra = Some (Fin med))) \<and>
     (use_list a \<longrightarrow>
        (\<exists>samples med.
           map call_result (filter (\<lambda>c. call_kind c = PyList) (new_calls w w')) = map Inr samples \<and>
           length samples = nat (repeats a) \<and>
           py_median avg samples = Inr med \<and> is_median med samples \<and> rl = Some (Fin med)))"
proof -
  from assms(4) have nf: "\<forall>k t. alloc_fails env k t (sz div 8) \<longrightarrow> sz div 8 < 2 ^ 63" by simp
  have med: "\<exists>samples med. map call_result cs = map Inr samples \<and>
           length samples = nat (repeats a) \<and>
           py_median avg samples = Inr med \<and> is_median med samples \<and> r = Some (Fin med)"
    if v: "r = Some v" "aggregated avg (repeats a) cs v"
      "\<forall>c\<in>set cs. call_result c \<noteq> Inl MemoryError" for r v cs
  proof -
    from aggregated_ok [OF v(2,3)] obtain samples med where
      s: "map call_result cs = map Inr samples" "length samples = nat (repeats a)"
        "py_median avg samples = Inr med" "v = Fin med" by blast
    from s(2) assms(2) have "samples \<noteq> []" by auto
    from py_median_is_median [OF this assms(5)] s(3) have "is_median med samples" by simp
    with s v(1) show ?thesis by blast
  qed
  from process_size_spec [OF assms(1,2,3) nf, where avg = avg and w = w] obtain w' ra rl ca cl where
    ps: "process_size avg env a st sz w = (Inr (), w')"
    and rw: "rows w' = rows w @ [\<lparr>row_size_bytes = sz, row_ns_array = ra, row_ns_list = rl\<rparr>]"
    and cw: "calls w' = calls w @ ca @ cl"
    and ka: "\<forall>c\<in>set ca. call_kind c = ArrayQ \<and> call_num_elements c = sz div 8 \<and>
                  call_stride_elems c = st \<and> call_min_accesses c = min_accesses a \<and>
                  call_warmup c = warmup a"
    and kl: "\<forall>c\<in>set cl. call_kind c = PyList \<and> call_num_elements c = sz div 8 \<and>
                  call_stride_elems c = st \<and> call_min_accesses c = min_accesses a div 10 \<and>
                  call_warmup c = warmup a"
    and oa: "if use_array a
      then ca \<noteq> [] \<and>
           (\<exists>v. ra = Some v \<and> aggregated avg (repeats a) ca v \<and>
                ((\<forall>t. alloc_fails env ArrayQ t (sz div 8)) \<longrightarrow> v = NaN)) \<and>
           ((\<forall>t. \<not> alloc_fails env ArrayQ t (sz div 8)) \<longrightarrow>
              (\<forall>c\<in>set ca. call_result c \<noteq> Inl MemoryError))
      else ca = [] \<and> ra = None"
    and ol: "if use_list a
      then cl \<noteq> [] \<and>
           (\<exists>v. rl = Some v \<and> aggregated avg (repeats a) cl v \<and>
                ((\<forall>t. alloc_fails env PyList t (sz div 8)) \<longrightarrow> v = NaN)) \<and>
           ((\<forall>t. \<not> alloc_fails env PyList t (sz div 8)) \<longrightarrow>
              (\<forall>c\<in>set cl. call_result c \<noteq> Inl MemoryError))
      else cl = [] \<and> rl = None"
    by blast
  have nc: "new_calls w w' = ca @ cl" using cw by (rule new_calls_append)
  have nr: "new_rows w w' = [\<lparr>row_size_bytes = sz, row_ns_array = ra, row_ns_list = rl\<rparr>]"
    using rw by (rule new_rows_append)
  from ka kl have fa: "filter (\<lambda>c. call_kind c = ArrayQ) (ca @ cl) = ca"
    and fl: "filter (\<lambda>c. call_kind c = PyList) (ca @ cl) = cl"
    by (simp_all add: filter_kind_split)
  have a: "\<exists>samples med. map call_result ca = map Inr samples \<and>
           length samples = nat (repeats a) \<and>
           py_median avg samples = Inr med \<and> is_median med samples \<and> ra = Some (Fin med)"
    if "use_array a"
  proof -
    from oa that assms(4) obtain v where v: "ra = Some v" "aggregated avg (repeats a) ca v"
      "\<forall>c\<in>set ca. call_result c \<noteq> Inl MemoryError" by auto
    from med [OF v] show ?thesis .
  qed
  have l: "\<exists>samples med. map call_result cl = map Inr samples \<and>
           length samples = nat (repeats a) \<and>
           py_median avg samples = Inr med \<and> is_median med samples \<and> rl = Some (Fin med)"
    if "use_list a"
  proof -
    from ol that assms(4) obtain v where v: "rl = Some v" "aggregated avg (repeats a) cl v"
      "\<forall>c\<in>set cl. call_result c \<noteq> Inl MemoryError" by auto
    from med [OF v] show ?thesis .
  qed
  have A: "use_array a \<longrightarrow>
        (\<exists>samples med.
           map call_result (filter (\<lambda>c. call_kind c = ArrayQ) (new_calls w w')) = map Inr samples \<and>
           length samples = nat (repeats a) \<and>
           py_median avg samples = Inr med \<and> is_median med samples \<and> ra = Some (Fin med))"
    using a unfolding nc fa by blast
  have L: "use_list a \<longrightarrow>
        (\<exists>samples med.
           map call_result (filter (\<lambda>c. call_kind c = PyList) (new_calls w w')) = map Inr samples \<and>
           length samples = nat (repeats a) \<and>
           py_median avg samples = Inr med \<and> is_median med samples \<and> rl = Some (Fin med))"
    using l unfolding nc fl by blast
  from ps nr A L show ?thesis by blast
qed

theorem reported_value_is_median_witness:
  "(1::int) \<le> 8 \<and>
   1 \<le> repeats \<lparr>min_kb = 1, max_mb = 0, max_gb = None, stride_bytes = 64, min_accesses = 20,
                 repeats = 3, use_list = True, use_array = True, warmup = False\<rparr> \<and>
   \<not> (1024::int) div 8 < 8 \<and>
   (\<forall>k t. \<not> alloc_fails \<lparr>clock = int, alloc_fails = \<lambda>k t n. False\<rparr> k t (1024 div 8)) \<and>
   mean_between (\<lambda>x y. (x + y) / 2) \<and>
   (\<exists>w' ra rl.
      process_size (\<lambda>x y. (x + y) / 2) \<lparr>clock = int, alloc_fails = \<lambda>k t n. False\<rparr>
        \<lparr>min_kb = 1, max_mb = 0, max_gb = None, stride_bytes = 64, min_accesses = 20,
         repeats = 3, use_list = True, use_array = True, warmup = False\<rparr>
        8 1024 \<lparr>tick = 0, calls = [], rows = []\<rparr> = (Inr (), w') \<and>
      new_rows \<lparr>tick = 0, calls = [], rows = []\<rparr> w'
        = [\<lparr>row_size_bytes = 1024, row_ns_array = ra, row_ns_list = rl\<rparr>] \<and>
      (\<exists>samples med.
         map call_result (filter (\<lambda>c. call_kind c = ArrayQ)
           (new_calls \<lparr>tick = 0, calls = [], rows = []\<rparr> w')) = map Inr samples \<and>
         length samples = 3 \<and> py_median (\<lambda>x y. (x + y) / 2) samples = Inr med \<and>
         is_median med samples \<and> ra = Some (Fin med)) \<and>
      (\<exists>samples med.
         map call_result (filter (\<lambda>c. call_kind c = PyList)
           (new_calls \<lparr>tick = 0, calls = [], rows = []\<rparr> w')) = map Inr samples \<and>
         length samples = 3 \<and> py_median (\<lambda>x y. (x + y) / 2) samples = Inr med \<and>
         is_median med samples \<and> rl = Some (Fin med)))"
proof -
  let ?env = "\<lparr>clock = int, alloc_fails = \<lambda>k t n. False\<rparr>"
  let ?a = "\<lparr>min_kb = 1, max_mb = 0, max_gb = None, stride_bytes = 64, min_accesses = 20,
             repeats = 3, use_list = True, use_array = True, warmup = False\<rparr>"
  let ?w = "\<lparr>tick = 0, calls = [], rows = []\<rparr>"
  let ?avg = "\<lambda>x y :: rat. (x + y) / 2"
  have h: "(1::int) \<le> 8" "1 \<le> repeats ?a" "\<not> (1024::int) div 8 < 8"
    "\<forall>k t. \<not> alloc_fails ?env k t (1024 div 8)" "mean_between ?avg"
    by (simp_all add: mean_between_plain)
  have u: "use_array ?a" "use_list ?a" "nat (repeats ?a) = 3" by simp_all
  from reported_value_is_median [OF h, of ?w] u(1,2) obtain w' ra rl where
    "process_size ?avg ?env ?a 8 1024 ?w = (Inr (), w')"
    "new_rows ?w w' = [\<lparr>row_size_bytes = 1024, row_ns_array = ra, row_ns_list = rl\<rparr>]"
    "\<exists>samples med.
       map call_result (filter (\<lambda>c. call_kind c = ArrayQ) (new_calls ?w w')) = map Inr samples \<and>
       length samples = nat (repeats ?a) \<and>
       py_median ?avg samples = Inr med \<and> is_median med samples \<and> ra = Some (Fin med)"
    "\<exists>samples med.
       map call_result (filter (\<lambda>c. call_kind c = PyList) (new_calls ?w w')) = map Inr samples \<and>
       length samples = nat (repeats ?a) \<and>
       py_median ?avg samples = Inr med \<and> is_median med samples \<and> rl = Some (Fin med)"
    by blast
  then show ?thesis using h unfolding u(3)
    by (intro conjI exI [of _ w'] exI [of _ ra] exI [of _ rl]) assumption+
qed

text \<open>
  C6. Take a stride of at least one element, at least one repeat, and a sweep whose sizes
  stay below \<open>2 ^ 63\<close> elements, so that a failing buffer construction raises
  \<^verbatim>\<open>MemoryError\<close>. Whatever the environment lets fail, no exception leaves the body of
  the loop at any size: the sizes before \<open>sz\<close>, the size \<open>sz\<close> and the sizes after it are
  all processed, and the run prints one row for every size of the sweep that is not
  skipped, in order. At a size \<open>sz\<close> that is not skipped, the value printed for an enabled
  buffer kind is not-a-number whenever a call of its measurer raised \<^verbatim>\<open>MemoryError\<close>,
  in particular whenever its buffer cannot be built at all.
\<close>

theorem allocation_failure_is_recorded:
  assumes "1 \<le> st" "1 \<le> repeats a" "\<forall>s\<in>set (pre @ sz # post). s div 8 < 2 ^ 63"
  shows "\<exists>w1 w2 w3.
     sweep avg env a st pre w = (Inr (), w1) \<and>
     process_size avg env a st sz w1 = (Inr (), w2) \<and>
     sweep avg env a st post w2 = (Inr (), w3) \<and>
     sweep avg env a st (pre @ sz # post) w = (Inr (), w3) \<and>
     map row_size_bytes (new_rows w w3) = filter (\<lambda>s. \<not> s div 8 < 8) (pre @ sz # post) \<and>
     (\<not> sz div 8 < 8 \<longrightarrow>
        (\<exists>ra rl. new_rows w1 w2 = [\<lparr>row_size_bytes = sz, row_ns_array = ra, row_ns_list = rl\<rparr>] \<and>
           (use_array a \<and>
              ((\<forall>t. alloc_fails env ArrayQ t (sz div 8)) \<or>
               (\<exists>c\<in>set (new_calls w1 w2). call_kind c = ArrayQ \<and> call_result c = Inl MemoryError))
              \<longrightarrow> ra = Some NaN) \<and>
           (use_list a \<and>
              ((\<forall>t. alloc_fails env PyList t (sz div 8)) \<or>
               (\<exists>c\<in>set (new_calls w1 w2). call_kind c = PyList \<and> call_result c = Inl MemoryError))
              \<longrightarrow> rl = Some NaN)))"
proof -
  note tot = sweep_total [OF assms(1,2)]
  from assms(3) have b: "\<forall>s\<in>set pre. s div 8 < 2 ^ 63" "\<forall>s\<in>set [sz]. s div 8 < 2 ^ 63"
    "\<forall>s\<in>set post. s div 8 < 2 ^ 63" "sz div 8 < 2 ^ 63" by simp_all
  from tot [OF b(1), where avg = avg and env = env and w = w] obtain w1
    where s1: "sweep avg env a st pre w = (Inr (), w1)" by blast
  from tot [OF b(2), where avg = avg and env = env and w = w1] obtain w2
    where p2: "process_size avg env a st sz w1 = (Inr (), w2)"
    by (auto split: prod.splits sum.splits)
  from tot [OF b(3), where avg = avg and env = env and w = w2] obtain w3
    where s3: "sweep avg env a st post w2 = (Inr (), w3)" by blast
  from b(4) have nf: "\<forall>k t. alloc_fails env k t (sz div 8) \<longrightarrow> sz div 8 < 2 ^ 63" by simp
  have all: "sweep avg env a st (pre @ sz # post) w = (Inr (), w3)"
    using s1 p2 s3 by (simp add: sweep_append)
  from sweep_log [OF all] have rows: "map row_size_bytes (new_rows w w3) =
      filter (\<lambda>s. \<not> s div 8 < 8) (pre @ sz # post)"
    by (auto simp: new_rows_def)
  have step: "\<exists>ra rl. new_rows w1 w2 = [\<lparr>row_size_bytes = sz, row_ns_array = ra, row_ns_list = rl\<rparr>] \<and>
           (use_array a \<and>
              ((\<forall>t. alloc_fails env ArrayQ t (sz div 8)) \<or>
               (\<exists>c\<in>set (new_calls w1 w2). call_kind c = ArrayQ \<and> call_result c = Inl MemoryError))
              \<longrightarrow> ra = Some NaN) \<and>
           (use_list a \<and>
              ((\<forall>t. alloc_fails env PyList t (sz div 8)) \<or>
               (\<exists>c\<in>set (new_calls w1 w2). call_kind c = PyList \<and> call_result c = Inl MemoryError))
              \<longrightarrow> rl = Some NaN)"
    if ns: "\<not> sz div 8 < 8"
  proof -
    from process_size_spec [OF assms(1,2) ns nf, where avg = avg and w = w1]
    obtain w'' ra rl ca cl where
      ps': "process_size avg env a st sz w1 = (Inr (), w'')"
      and rw': "rows w'' = rows w1 @ [\<lparr>row_size_bytes = sz, row_ns_array = ra, row_ns_list = rl\<rparr>]"
      and cw': "calls w'' = calls w1 @ ca @ cl"
      and ka': "\<forall>c\<in>set ca. call_kind c = ArrayQ \<and> call_num_elements c = sz div 8 \<and>
                  call_stride_elems c = st \<and> call_min_accesses c = min_accesses a \<and>
                  call_warmup c = warmup a"
      and kl': "\<forall>c\<in>set cl. call_kind c = PyList \<and> call_num_elements c = sz div 8 \<and>
                  call_stride_elems c = st \<and> call_min_accesses c = min_accesses a div 10 \<and>
                  call_warmup c = warmup a"
      and oa': "if use_array a
      then ca \<noteq> [] \<and>
           (\<exists>v. ra = Some v \<and> aggregated avg (repeats a) ca v \<and>
                ((\<forall>t. alloc_fails env ArrayQ t (sz div 8)) \<longrightarrow> v = NaN)) \<and>
           ((\<forall>t. \<not> alloc_fails env ArrayQ t (sz div 8)) \<longrightarrow>
              (\<forall>c\<in>set ca. call_result c \<noteq> Inl MemoryError))
      else ca = [] \<and> ra = None"
      and ol': "if use_list a
      then cl \<noteq> [] \<and>
           (\<exists>v. rl = Some v \<and> aggregated avg (repeats a) cl v \<and>
                ((\<forall>t. alloc_fails env PyList t (sz div 8)) \<longrightarrow> v = NaN)) \<and>
           ((\<forall>t. \<not> alloc_fails env PyList t (sz div 8)) \<longrightarrow>
              (\<forall>c\<in>set cl. call_result c \<noteq> Inl MemoryError))
      else cl = [] \<and> rl = None"
      by blast
    from ps' p2 have w'': "w'' = w2" by simp
    note rw = rw' [unfolded w''] and cw = cw' [unfolded w'']
    from ka' have ka: "\<forall>c\<in>set ca. call_kind c = ArrayQ" by blast
    from kl' have kl: "\<forall>c\<in>set cl. call_kind c = PyList" by blast
    from oa' have oa: "use_array a \<longrightarrow>
           (\<exists>v. ra = Some v \<and> aggregated avg (repeats a) ca v \<and>
                ((\<forall>t. alloc_fails env ArrayQ t (sz div 8)) \<longrightarrow> v = NaN))"
      by (cases "use_array a") simp_all
    from ol' have ol: "use_list a \<longrightarrow>
           (\<exists>v. rl = Some v \<and> aggregated avg (repeats a) cl v \<and>
                ((\<forall>t. alloc_fails env PyList t (sz div 8)) \<longrightarrow> v = NaN))"
      by (cases "use_list a") simp_all
    have nc: "new_calls w1 w2 = ca @ cl" using cw by (rule new_calls_append)
    have nr: "new_rows w1 w2 = [\<lparr>row_size_bytes = sz, row_ns_array = ra, row_ns_list = rl\<rparr>]"
      using rw by (rule new_rows_append)
    have a: "ra = Some NaN" if "use_array a"
      "(\<forall>t. alloc_fails env ArrayQ t (sz div 8)) \<or>
       (\<exists>c\<in>set (ca @ cl). call_kind c = ArrayQ \<and> call_result c = Inl MemoryError)"
    proof -
      from oa that(1) obtain v where v: "ra = Some v" "aggregated avg (repeats a) ca v"
        "(\<forall>t. alloc_fails env ArrayQ t (sz div 8)) \<longrightarrow> v = NaN" by blast
      from that(2) show ?thesis
      proof
        assume "\<forall>t. alloc_fails env ArrayQ t (sz div 8)"
        with v show ?thesis by simp
      next
        assume "\<exists>c\<in>set (ca @ cl). call_kind c = ArrayQ \<and> call_result c = Inl MemoryError"
        then obtain c where "c \<in> set ca" "call_result c = Inl MemoryError"
          using kl by auto
        from aggregated_failed [OF v(2) this] v(1) show ?thesis by simp
      qed
    qed
    have l: "rl = Some NaN" if "use_list a"
      "(\<forall>t. alloc_fails env PyList t (sz div 8)) \<or>
       (\<exists>c\<in>set (ca @ cl). call_kind c = PyList \<and> call_result c = Inl MemoryError)"
    proof -
      from ol that(1) obtain v where v: "rl = Some v" "aggregated avg (repeats a) cl v"
        "(\<forall>t. alloc_fails env PyList t (sz div 8)) \<longrightarrow> v = NaN" by blast
      from that(2) show ?thesis
      proof
        assume "\<forall>t. alloc_fails env PyList t (sz div 8)"
        with v show ?thesis by simp
      next
        assume "\<exists>c\<in>set (ca @ cl). call_kind c = PyList \<and> call_result c = Inl MemoryError"
        then obtain c where "c \<in> set cl" "call_result c = Inl MemoryError"
          using ka by auto
        from aggregated_failed [OF v(2) this] v(1) show ?thesis by simp
      qed
    qed
    from nr a l show ?thesis unfolding nc by blast
  qed
  from s1 p2 s3 all rows step show ?thesis by blast
qed

theorem allocation_failure_is_recorded_witness:
  "(1::int) \<le> 8 \<and>
   1 \<le> repeats \<lparr>min_kb = 1, max_mb = 0, max_gb = None, stride_bytes = 64, min_accesses = 20,
                 repeats = 1, use_list = True, use_array = True, warmup = False\<rparr> \<and>
   (1024::int) div 8 < 2 ^ 63 \<and> (2048::int) div 8 < 2 ^ 63 \<and> \<not> (2048::int) div 8 < 8 \<and>
   (\<forall>t. alloc_fails \<lparr>clock = int, alloc_fails = \<lambda>k t n. k = ArrayQ \<and> 256 \<le> n\<rparr>
          ArrayQ t (2048 div 8)) \<and>
   (\<exists>w1 w2 w3.
     sweep (\<lambda>x y. (x + y) / 2) \<lparr>clock = int, alloc_fails = \<lambda>k t n. k = ArrayQ \<and> 256 \<le> n\<rparr>
       \<lparr>min_kb = 1, max_mb = 0, max_gb = None, stride_bytes = 64, min_accesses = 20,
        repeats = 1, use_list = True, use_array = True, warmup = False\<rparr>
       8 [1024, 2048, 1024] \<lparr>tick = 0, calls = [], rows = []\<rparr> = (Inr (), w3) \<and>
     process_size (\<lambda>x y. (x + y) / 2)
       \<lparr>clock = int, alloc_fails = \<lambda>k t n. k = ArrayQ \<and> 256 \<le> n\<rparr>
       \<lparr>min_kb = 1, max_mb = 0, max_gb = None, stride_bytes = 64, min_accesses = 20,
        repeats = 1, use_list = True, use_array = True, warmup = False\<rparr>
       8 2048 w1 = (Inr (), w2) \<and>
     map row_size_bytes (new_rows \<lparr>tick = 0, calls = [], rows = []\<rparr> w3) = [1024, 2048, 1024] \<and>
     (\<exists>rl. new_rows w1 w2
        = [\<lparr>row_size_bytes = 2048, row_ns_array = Some NaN, row_ns_list = rl\<rparr>]))"
proof -
  let ?env = "\<lparr>clock = int, alloc_fails = \<lambda>k t n. k = ArrayQ \<and> 256 \<le> n\<rparr>"
  let ?a = "\<lparr>min_kb = 1, max_mb = 0, max_gb = None, stride_bytes = 64, min_accesses = 20,
             repeats = 1, use_list = True, use_array = True, warmup = False\<rparr>"
  let ?w = "\<lparr>tick = 0, calls = [], rows = []\<rparr>"
  let ?avg = "\<lambda>x y :: rat. (x + y) / 2"
  have h: "(1::int) \<le> 8" "1 \<le> repeats ?a"
    "\<forall>s\<in>set ([1024] @ 2048 # [1024 :: int]). s div 8 < 2 ^ 63"
    by simp_all
  have f: "\<not> (2048::int) div 8 < 8" "use_array ?a" "\<forall>t. alloc_fails ?env ArrayQ t (2048 div 8)"
    by simp_all
  have l: "[1024] @ 2048 # [1024] = [1024, 2048, 1024 :: int]"
    "filter (\<lambda>s. \<not> s div 8 < 8) [1024, 2048, 1024 :: int] = [1024, 2048, 1024]"
    by simp_all
  from allocation_failure_is_recorded [OF h, of ?avg ?env ?w] f
  obtain w1 w2 w3 ra rl where
    "process_size ?avg ?env ?a 8 2048 w1 = (Inr (), w2)"
    "sweep ?avg ?env ?a 8 ([1024] @ 2048 # [1024]) ?w = (Inr (), w3)"
    "map row_size_bytes (new_rows ?w w3) = filter (\<lambda>s. \<not> s div 8 < 8) ([1024] @ 2048 # [1024])"
    "new_rows w1 w2 = [\<lparr>row_size_bytes = 2048, row_ns_array = ra, row_ns_list = rl\<rparr>]"
    "ra = Some NaN"
    by blast
  then have
    "sweep ?avg ?env ?a 8 [1024, 2048, 1024] ?w = (Inr (), w3)"
    "process_size ?avg ?env ?a 8 2048 w1 = (Inr (), w2)"
    "map row_size_bytes (new_rows ?w w3) = [1024, 2048, 1024]"
    "\<exists>rl. new_rows w1 w2 = [\<lparr>row_size_bytes = 2048, row_ns_array = Some NaN, row_ns_list = rl\<rparr>]"
    unfolding l by blast+
  moreover have "(1024::int) div 8 < 2 ^ 63" "(2048::int) div 8 < 2 ^ 63" by simp_all
  ultimately show ?thesis using h(1,2) f(1,3)
    by (intro conjI exI [of _ w1] exI [of _ w2] exI [of _ w3]) assumption+
qed

text \<open>
  C7. In every run of \<^verbatim>\<open>main\<close>, each call of the contiguous (array) measurer receives
  the configured \<^verbatim>\<open>min_accesses\<close>, and each call of the indirect (list) measurer
  receives \<^verbatim>\<open>min_accesses // 10\<close>: one-tenth of it as an integer, exactly one-tenth when
  the configured value is a multiple of ten (as the default 1,000,000 is).
\<close>

theorem list_floor_is_one_tenth:
  assumes "main up avg env a w = (res, w')"
  shows "\<forall>c\<in>set (new_calls w w').
           (call_kind c = ArrayQ \<longrightarrow> call_min_accesses c = min_accesses a) \<and>
           (call_kind c = PyList \<longrightarrow>
              call_min_accesses c = min_accesses a div 10 \<and>
              (10 dvd min_accesses a \<longrightarrow> 10 * call_min_accesses c = min_accesses a))"
  using main_log [OF assms] by (auto simp: new_calls_def)

theorem list_floor_is_one_tenth_witness:
  "\<exists>w'.
     main (\<lambda>x. False) (\<lambda>x y. (x + y) / 2) \<lparr>clock = int, alloc_fails = \<lambda>k t n. False\<rparr>
       \<lparr>min_kb = 1, max_mb = 0, max_gb = None, stride_bytes = 64, min_accesses = 20,
        repeats = 1, use_list = True, use_array = True, warmup = False\<rparr>
       \<lparr>tick = 0, calls = [], rows = []\<rparr> = (Inr 0, w') \<and>
     (\<exists>c\<in>set (new_calls \<lparr>tick = 0, calls = [], rows = []\<rparr> w').
        call_kind c = ArrayQ \<and> call_min_accesses c = 20) \<and>
     (\<exists>c\<in>set (new_calls \<lparr>tick = 0, calls = [], rows = []\<rparr> w').
        call_kind c = PyList \<and> call_min_accesses c = 2 \<and> 10 * call_min_accesses c = 20)"
proof -
  let ?env = "\<lparr>clock = int, alloc_fails = \<lambda>k t n. False\<rparr>"
  let ?a = "\<lparr>min_kb = 1, max_mb = 0, max_gb = None, stride_bytes = 64, min_accesses = 20,
             repeats = 1, use_list = True, use_array = True, warmup = False\<rparr>"
  let ?w = "\<lparr>tick = 0, calls = [], rows = []\<rparr>"
  let ?avg = "\<lambda>x y :: rat. (x + y) / 2"
  have h: "\<not> (1024::int) div 8 < 8" "(1::int) \<le> 8" "1 \<le> repeats ?a" "(1024::int) div 8 < 2 ^ 63"
    by simp_all
  have u: "use_array ?a" "use_list ?a" by simp_all
  from process_size_measured [OF h, of ?avg ?env ?w] u
  obtain w' ca cl where
    ps: "process_size ?avg ?env ?a 8 1024 ?w = (Inr (), w')"
    and ca: "ca \<in> set (new_calls ?w w')" "call_kind ca = ArrayQ"
    and cl: "cl \<in> set (new_calls ?w w')" "call_kind cl = PyList"
    by blast
  have m: "main (\<lambda>x. False) ?avg ?env ?a ?w = (Inr 0, w')"
    using ps by (simp add: main_one_size)
  note t = list_floor_is_one_tenth [OF m]
  from t ca have "call_min_accesses ca = 20" by simp
  moreover from t cl have "call_min_accesses cl = 2" by simp
  ultimately show ?thesis using m ca cl by auto
qed

text \<open>
  C8. The test of the loop body is \<open>size_bytes div 8 < 8\<close>. A size for which it holds is
  skipped: the body returns with the world unchanged, so no measurer is called, no clock is
  read and no row is printed. A size for which it fails is measured (for a stride of at
  least one element, at least one repeat and fewer than \<open>2 ^ 63\<close> elements): the body
  prints one row for it, with a value for every enabled buffer kind, after calling the
  measurer of that kind with \<open>size_bytes div 8\<close> elements. A sweep that ends normally has
  printed rows for exactly the sizes that fail the test, in the order of the sweep.
\<close>

theorem small_sizes_are_skipped:
  "(skipped sz \<longleftrightarrow> sz div 8 < 8) \<and>
   (sz div 8 < 8 \<longrightarrow> process_size avg env a st sz w = (Inr (), w)) \<and>
   (\<not> sz div 8 < 8 \<and> 1 \<le> st \<and> 1 \<le> repeats a \<and> sz div 8 < 2 ^ 63 \<longrightarrow>
      (\<exists>w' ra rl. process_size avg env a st sz w = (Inr (), w') \<and>
         new_rows w w' = [\<lparr>row_size_bytes = sz, row_ns_array = ra, row_ns_list = rl\<rparr>] \<and>
         (use_array a \<longrightarrow> ra \<noteq> None \<and>
            (\<exists>c\<in>set (new_calls w w'). call_kind c = ArrayQ \<and> call_num_elements c = sz div 8)) \<and>
         (use_list a \<longrightarrow> rl \<noteq> None \<and>
            (\<exists>c\<in>set (new_calls w w'). call_kind c = PyList \<and> call_num_elements c = sz div 8)))) \<and>
   (\<forall>w'. sweep avg env a st sizes w = (Inr (), w') \<longrightarrow>
      map row_size_bytes (new_rows w w') = filter (\<lambda>s. \<not> s div 8 < 8) sizes)"
proof (intro conjI impI allI)
  show "skipped sz \<longleftrightarrow> sz div 8 < 8" unfolding skipped_def by (rule skip_test)
next
  assume "sz div 8 < 8"
  then show "process_size avg env a st sz w = (Inr (), w)" by (rule process_size_skip)
next
  assume "\<not> sz div 8 < 8 \<and> 1 \<le> st \<and> 1 \<le> repeats a \<and> sz div 8 < 2 ^ 63"
  then have "\<not> sz div 8 < 8" "1 \<le> st" "1 \<le> repeats a" "sz div 8 < 2 ^ 63" by simp_all
  then show "\<exists>w' ra rl. process_size avg env a st sz w = (Inr (), w') \<and>
         new_rows w w' = [\<lparr>row_size_bytes = sz, row_ns_array = ra, row_ns_list = rl\<rparr>] \<and>
         (use_array a \<longrightarrow> ra \<noteq> None \<and>
            (\<exists>c\<in>set (new_calls w w'). call_kind c = ArrayQ \<and> call_num_elements c = sz div 8)) \<and>
         (use_list a \<longrightarrow> rl \<noteq> None \<and>
            (\<exists>c\<in>set (new_calls w w'). call_kind c = PyList \<and> call_num_elements c = sz div 8))"
    by (rule process_size_measured)
next
  fix w'
  assume "sweep avg env a st sizes w = (Inr (), w')"
  from sweep_log [OF this]
  show "map row_size_bytes (new_rows w w') = filter (\<lambda>s. \<not> s div 8 < 8) sizes"
    by (auto simp: new_rows_def)
qed

theorem small_sizes_are_skipped_witness:
  "(32::int) div 8 < 8 \<and> skipped 32 \<and> \<not> (1024::int) div 8 < 8 \<and> (1::int) \<le> 8 \<and>
   1 \<le> repeats \<lparr>min_kb = 1, max_mb = 0, max_gb = None, stride_bytes = 64, min_accesses = 20,
                 repeats = 1, use_list = True, use_array = True, warmup = False\<rparr> \<and>
   (1024::int) div 8 < 2 ^ 63 \<and> \<not> skipped 1024 \<and>
   process_size (\<lambda>x y. (x + y) / 2) \<lparr>clock = int, alloc_fails = \<lambda>k t n. False\<rparr>
     \<lparr>min_kb = 1, max_mb = 0, max_gb = None, stride_bytes = 64, min_accesses = 20,
      repeats = 1, use_list = True, use_array = True, warmup = False\<rparr>
     8 32 \<lparr>tick = 0, calls = [], rows = []\<rparr> = (Inr (), \<lparr>tick = 0, calls = [], rows = []\<rparr>) \<and>
   (\<exists>w' ra rl.
      process_size (\<lambda>x y. (x + y) / 2) \<lparr>clock = int, alloc_fails = \<lambda>k t n. False\<rparr>
        \<lparr>min_kb = 1, max_mb = 0, max_gb = None, stride_bytes = 64, min_accesses = 20,
         repeats = 1, use_list = True, use_array = True, warmup = False\<rparr>
        8 1024 \<lparr>tick = 0, calls = [], rows = []\<rparr> = (Inr (), w') \<and>
      new_rows \<lparr>tick = 0, calls = [], rows = []\<rparr> w'
        = [\<lparr>row_size_bytes = 1024, row_ns_array = ra, row_ns_list = rl\<rparr>] \<and>
      ra \<noteq> None \<and> rl \<noteq> None \<and>
      (\<exists>c\<in>set (new_calls \<lparr>tick = 0, calls = [], rows = []\<rparr> w').
         call_kind c = ArrayQ \<and> call_num_elements c = 128) \<and>
      (\<exists>c\<in>set (new_calls \<lparr>tick = 0, calls = [], rows = []\<rparr> w').
         call_kind c = PyList \<and> call_num_elements c = 128) \<and>
      sweep (\<lambda>x y. (x + y) / 2) \<lparr>clock = int, alloc_fails = \<lambda>k t n. False\<rparr>
        \<lparr>min_kb = 1, max_mb = 0, max_gb = None, stride_bytes = 64, min_accesses = 20,
         repeats = 1, use_list = True, use_array = True, warmup = False\<rparr>
        8 [32, 1024] \<lparr>tick = 0, calls = [], rows = []\<rparr> = (Inr (), w') \<and>
      map row_size_bytes (new_rows \<lparr>tick = 0, calls = [], rows = []\<rparr> w') = [1024])"
proof -
  let ?env = "\<lparr>clock = int, alloc_fails = \<lambda>k t n. False\<rparr>"
  let ?a = "\<lparr>min_kb = 1, max_mb = 0, max_gb = None, stride_bytes = 64, min_accesses = 20,
             repeats = 1, use_list = True, use_array = True, warmup = False\<rparr>"
  let ?w = "\<lparr>tick = 0, calls = [], rows = []\<rparr>"
  let ?avg = "\<lambda>x y :: rat. (x + y) / 2"
  note t = small_sizes_are_skipped [of _ ?avg ?env ?a 8 ?w "[32, 1024]"]
  have a: "(32::int) div 8 < 8" by simp
  have b: "\<not> (1024::int) div 8 < 8 \<and> (1::int) \<le> 8 \<and> 1 \<le> repeats ?a \<and> (1024::int) div 8 < 2 ^ 63"
    by simp
  have u: "use_array ?a" "use_list ?a" by simp_all
  have d: "(1024::int) div 8 = 128" by simp
  from t [of 32] a have s: "skipped 32" "process_size ?avg ?env ?a 8 32 ?w = (Inr (), ?w)"
    by blast+
  from t [of 1024] b have ns: "\<not> skipped 1024" by blast
  from t [of 1024] b u obtain w' ra rl where p:
    "process_size ?avg ?env ?a 8 1024 ?w = (Inr (), w')"
    "new_rows ?w w' = [\<lparr>row_size_bytes = 1024, row_ns_array = ra, row_ns_list = rl\<rparr>]"
    "ra \<noteq> None" "rl \<noteq> None"
    "\<exists>c\<in>set (new_calls ?w w'). call_kind c = ArrayQ \<and> call_num_elements c = 1024 div 8"
    "\<exists>c\<in>set (new_calls ?w w'). call_kind c = PyList \<and> call_num_elements c = 1024 div 8"
    by blast
  have sw: "sweep ?avg ?env ?a 8 [32, 1024] ?w = (Inr (), w')"
    by (simp add: s(2) p(1))
  from t [of 1024] sw have "map row_size_bytes (new_rows ?w w') =
      filter (\<lambda>s. \<not> s div 8 < 8) [32, 1024]" by blast
  then have rw: "map row_size_bytes (new_rows ?w w') = [1024]" by simp
  from a b s ns p sw rw show ?thesis unfolding d
    by (intro conjI exI [of _ w'] exI [of _ ra] exI [of _ rl]) simp_all
qed

end
